theory Spec2Isabelle
  imports Main "HOL-Library.AList" "HOL-Library.Char_ord" "HOL-Library.List_Lexorder"
    "HOL-Library.Product_Lexorder" "HOL-Library.Multiset"
begin

section \<open>Data model of the views (views.ts)\<close>

text \<open>
  \<^verbatim>\<open>IViewDescriptor\<close> as far as views.ts reads it: \<^verbatim>\<open>id\<close>, the context keys of the optional
  \<^verbatim>\<open>when\<close> expression (the only thing the collection asks of the expression is
  \<^verbatim>\<open>when.keys()\<close>; \<^verbatim>\<open>None\<close> is a descriptor without \<^verbatim>\<open>when\<close>), the optional declared
  \<^verbatim>\<open>order\<close> and \<^verbatim>\<open>canToggleVisibility\<close>. Numbers are integers here: the orders views.ts
  itself writes are array indices; NaN and fractions are outside the model.
\<close>

record IViewDescriptor =
  id_d :: string
  when_keys :: "string list option"
  order_d :: "int option"
  canToggleVisibility :: bool

text \<open>\<^verbatim>\<open>IViewState\<close>: \<^verbatim>\<open>{visible, collapsed, order?, size?}\<close>.\<close>

record IViewState =
  visible :: bool
  collapsed :: bool
  order :: "int option"
  size_s :: "int option"

text \<open>
  A JavaScript \<^verbatim>\<open>Map<string, V>\<close> is an association list in insertion order:
  \<^verbatim>\<open>get\<close> is \<^const>\<open>map_of\<close>, \<^verbatim>\<open>set\<close> is \<^const>\<open>AList.update\<close> (an existing key keeps
  its place, a new key goes to the end), \<^verbatim>\<open>has\<close> asks whether \<^const>\<open>map_of\<close> is defined.
\<close>

type_synonym 'v js_map = "(string \<times> 'v) list"

text \<open>
  The errors views.ts raises: a property read on \<^verbatim>\<open>undefined\<close> (TypeError), a string that
  \<^verbatim>\<open>JSON.parse\<close> rejects (SyntaxError),
  \<^verbatim>\<open>Unknown view ${id}\<close>, \<^verbatim>\<open>Can't toggle this view's visibility\<close> and
  \<^verbatim>\<open>view descriptor ${id} not found\<close>.
\<close>

datatype error =
  TypeError
  | SyntaxError
  | UnknownView string
  | CantToggleVisibility
  | ViewDescriptorNotFound string

text \<open>
  The values of the comparator: a difference of two orders, each an integer or
  \<^verbatim>\<open>Number.POSITIVE_INFINITY\<close>. NaN is the difference of two equal infinities, which the
  comparator never forms: it subtracts only orders that differ.
\<close>

datatype number = NaN | NInf | Num int | PInf

fun number_minus :: "number \<Rightarrow> number \<Rightarrow> number" where
  "number_minus (Num a) (Num b) = Num (a - b)"
| "number_minus NaN _ = NaN"
| "number_minus _ NaN = NaN"
| "number_minus PInf PInf = NaN"
| "number_minus NInf NInf = NaN"
| "number_minus PInf _ = PInf"
| "number_minus NInf _ = NInf"
| "number_minus (Num a) PInf = NInf"
| "number_minus (Num a) NInf = PInf"

fun is_zero :: "number \<Rightarrow> bool" where
  "is_zero (Num n) = (n = 0)"
| "is_zero _ = False"

fun is_neg :: "number \<Rightarrow> bool" where
  "is_neg (Num n) = (n < 0)"
| "is_neg NInf = True"
| "is_neg _ = False"

fun is_pos :: "number \<Rightarrow> bool" where
  "is_pos (Num n) = (0 < n)"
| "is_pos PInf = True"
| "is_pos _ = False"

subsection \<open>compareViewDescriptors\<close>

text \<open>
  \<^verbatim>\<open>let orderA = viewStateA && viewStateA.order;
  orderA = typeof orderA === 'number' ? orderA : a.order;
  orderA = typeof orderA === 'number' ? orderA : Number.POSITIVE_INFINITY;\<close>
\<close>

definition effectiveOrder :: "IViewState js_map \<Rightarrow> IViewDescriptor \<Rightarrow> number" where
  "effectiveOrder viewStates a =
     (case (case map_of viewStates (id_d a) of None \<Rightarrow> None | Some st \<Rightarrow> order st) of
        Some n \<Rightarrow> Num n
      | None \<Rightarrow> (case order_d a of Some n \<Rightarrow> Num n | None \<Rightarrow> PInf))"

definition compareViewDescriptors ::
  "IViewState js_map \<Rightarrow> IViewDescriptor \<Rightarrow> IViewDescriptor \<Rightarrow> number" where
  "compareViewDescriptors viewStates a b =
     (let orderA = effectiveOrder viewStates a;
          orderB = effectiveOrder viewStates b
      in if orderA \<noteq> orderB then number_minus orderA orderB
         else if id_d a = id_d b then Num 0
         else if id_d a < id_d b then Num (- 1) else Num 1)"

text \<open>
  \<^verbatim>\<open>Array.prototype.sort(compare)\<close>, as an insertion sort: an element goes before the first
  element it does not compare greater than.
\<close>

fun insort_cmp :: "('a \<Rightarrow> 'a \<Rightarrow> number) \<Rightarrow> 'a \<Rightarrow> 'a list \<Rightarrow> 'a list" where
  "insort_cmp cmp x [] = [x]"
| "insort_cmp cmp x (y # ys) =
     (if is_pos (cmp x y) then y # insort_cmp cmp x ys else x # y # ys)"

definition sort_cmp :: "('a \<Rightarrow> 'a \<Rightarrow> number) \<Rightarrow> 'a list \<Rightarrow> 'a list" where
  "sort_cmp cmp xs = foldr (insort_cmp cmp) xs []"

text \<open>A list is in comparator order when no element compares greater than a later one.\<close>

fun sorted_cmp :: "('a \<Rightarrow> 'a \<Rightarrow> number) \<Rightarrow> 'a list \<Rightarrow> bool" where
  "sorted_cmp cmp [] = True"
| "sorted_cmp cmp (x # xs) = (list_all (\<lambda>y. \<not> is_pos (cmp x y)) xs \<and> sorted_cmp cmp xs)"

subsection \<open>Array helpers\<close>

text \<open>\<^verbatim>\<open>array[i]\<close>: \<^verbatim>\<open>undefined\<close> (\<^const>\<open>None\<close>) outside the array, also at \<^verbatim>\<open>-1\<close>.\<close>

definition js_index :: "'a list \<Rightarrow> int \<Rightarrow> 'a option" where
  "js_index xs i = (if 0 \<le> i \<and> i < int (length xs) then Some (xs ! nat i) else None)"

text \<open>
  \<^verbatim>\<open>array.splice(start, deleteCount, ...items)\<close>: a negative start counts from the end, both
  numbers are clamped to the array; the result is the removed elements and the new array.
\<close>

definition js_splice :: "'a list \<Rightarrow> int \<Rightarrow> int \<Rightarrow> 'a list \<Rightarrow> 'a list \<times> 'a list" where
  "js_splice xs start deleteCount items =
     (let len = int (length xs);
          s = (if start < 0 then max (len + start) 0 else min start len);
          dc = min (max deleteCount 0) (len - s)
      in (take (nat dc) (drop (nat s) xs),
          take (nat s) xs @ items @ drop (nat (s + dc)) xs))"

text \<open>
  Modelled from the spec: \<^verbatim>\<open>firstIndex\<close> of vs/base/common/arrays, which is not among the
  sources: the index of the first element that satisfies the predicate, \<^verbatim>\<open>-1\<close> when there
  is none (views.ts tests \<^verbatim>\<open>index === -1\<close>).
\<close>

fun firstIndex_from :: "('a \<Rightarrow> bool) \<Rightarrow> 'a list \<Rightarrow> int \<Rightarrow> int" where
  "firstIndex_from fn [] i = - 1"
| "firstIndex_from fn (x # xs) i = (if fn x then i else firstIndex_from fn xs (i + 1))"

definition firstIndex :: "'a list \<Rightarrow> ('a \<Rightarrow> bool) \<Rightarrow> int" where
  "firstIndex array fn = firstIndex_from fn array 0"

text \<open>
  Modelled from the spec: \<^verbatim>\<open>move\<close> of vs/base/common/arrays, which is not among the sources
  (the spec: "relocates the raw descriptor order (splicing the list)"):
  \<^verbatim>\<open>array.splice(to, 0, array.splice(from, 1)[0])\<close>. When the inner splice removes nothing
  the array receives \<^verbatim>\<open>undefined\<close>, which a descriptor list cannot hold: \<^const>\<open>None\<close>.
\<close>

definition arrays_move :: "'a list \<Rightarrow> int \<Rightarrow> int \<Rightarrow> 'a list option" where
  "arrays_move array fromIndex toIndex =
     (case js_splice array fromIndex 1 [] of
        (removed, rest) \<Rightarrow>
          (case removed of
             [] \<Rightarrow> None
           | x # _ \<Rightarrow> Some (snd (js_splice rest toIndex 0 [x]))))"

text \<open>
  Modelled from the spec: \<^verbatim>\<open>sortedDiff\<close> of vs/base/common/arrays, which is not among the
  sources (the spec: "a sequence diff (splice list) between the previous canonical order
  and the new canonical order, using the same comparator for equality"). Both arrays are
  walked in step: equal heads advance both, a smaller head of \<^verbatim>\<open>before\<close> is a deletion, a
  smaller head of \<^verbatim>\<open>after\<close> an insertion; a splice that starts where the latest one ends
  is merged into it. A splice is \<^verbatim>\<open>{start, deleteCount, toInsert}\<close>, with \<^verbatim>\<open>start\<close> an index
  into \<^verbatim>\<open>before\<close>. The comparator is taken never to return NaN (the comparators of this
  development do not).
\<close>

record 'a ISplice =
  start :: nat
  deleteCount :: nat
  toInsert :: "'a list"

definition pushSplice :: "nat \<Rightarrow> nat \<Rightarrow> 'a list \<Rightarrow> 'a ISplice list \<Rightarrow> 'a ISplice list" where
  "pushSplice st dc ins result =
     (if dc = 0 \<and> ins = [] then result
      else if result \<noteq> [] \<and> start (last result) + deleteCount (last result) = st
      then butlast result @
             [(last result)\<lparr>deleteCount := deleteCount (last result) + dc,
                            toInsert := toInsert (last result) @ ins\<rparr>]
      else result @ [\<lparr>start = st, deleteCount = dc, toInsert = ins\<rparr>])"

text \<open>
  The loop of \<^verbatim>\<open>sortedDiff\<close>; \<^verbatim>\<open>before\<close> and \<^verbatim>\<open>after\<close> are the parts of the arrays from
  \<^verbatim>\<open>beforeIdx\<close> and \<^verbatim>\<open>afterIdx\<close> on.
\<close>

fun sortedDiff_loop ::
  "('a \<Rightarrow> 'a \<Rightarrow> number) \<Rightarrow> 'a list \<Rightarrow> 'a list \<Rightarrow> nat \<Rightarrow> 'a ISplice list \<Rightarrow> 'a ISplice list" where
  "sortedDiff_loop compare [] after beforeIdx result = pushSplice beforeIdx 0 after result"
| "sortedDiff_loop compare (b # bs) [] beforeIdx result =
     pushSplice beforeIdx (length (b # bs)) [] result"
| "sortedDiff_loop compare (b # bs) (a # as) beforeIdx result =
     (let n = compare b a
      in if is_zero n then sortedDiff_loop compare bs as (beforeIdx + 1) result
         else if is_neg n
         then sortedDiff_loop compare bs (a # as) (beforeIdx + 1) (pushSplice beforeIdx 1 [] result)
         else sortedDiff_loop compare (b # bs) as beforeIdx (pushSplice beforeIdx 0 [a] result))"

definition sortedDiff :: "'a list \<Rightarrow> 'a list \<Rightarrow> ('a \<Rightarrow> 'a \<Rightarrow> number) \<Rightarrow> 'a ISplice list" where
  "sortedDiff before after compare = sortedDiff_loop compare before after 0 []"

section \<open>ContributableViewsModel\<close>

text \<open>
  The instance: the stored ordered list \<^verbatim>\<open>viewDescriptors\<close> and the map \<^verbatim>\<open>viewStates\<close>.
  A method takes the instance and returns the instance after it together with the events it
  fired, in the order of firing, or the error it threw.
\<close>

record ContributableViewsModel =
  viewDescriptors :: "IViewDescriptor list"
  viewStates :: "IViewState js_map"

text \<open>
  \<^verbatim>\<open>onDidAdd({index, viewDescriptor, size, collapsed})\<close>,
  \<^verbatim>\<open>onDidRemove({index, viewDescriptor})\<close> and
  \<^verbatim>\<open>onDidMove({from: {index, viewDescriptor}, to: {index, viewDescriptor}})\<close>; the indices
  and descriptors of a move come from \<^verbatim>\<open>firstIndex\<close> and an array read, so they may be
  \<^verbatim>\<open>-1\<close> and \<^verbatim>\<open>undefined\<close>.
\<close>

datatype event =
  DidAdd nat IViewDescriptor "int option" bool
  | DidRemove nat IViewDescriptor
  | DidMove int "IViewDescriptor option" int "IViewDescriptor option"

text \<open>The getter \<^verbatim>\<open>visibleViewDescriptors\<close>; it reads \<^verbatim>\<open>.visible\<close> of every state.\<close>

fun visible_filter :: "IViewState js_map \<Rightarrow> IViewDescriptor list \<Rightarrow> error + IViewDescriptor list" where
  "visible_filter st [] = Inr []"
| "visible_filter st (v # vs) =
     (case map_of st (id_d v) of
        None \<Rightarrow> Inl TypeError
      | Some s \<Rightarrow>
          (case visible_filter st vs of
             Inl e \<Rightarrow> Inl e
           | Inr r \<Rightarrow> Inr (if visible s then v # r else r)))"

definition visibleViewDescriptors :: "ContributableViewsModel \<Rightarrow> error + IViewDescriptor list" where
  "visibleViewDescriptors m = visible_filter (viewStates m) (viewDescriptors m)"

text \<open>
  \<^verbatim>\<open>find(id)\<close>: the loop over the stored list, with the raw index \<^verbatim>\<open>i\<close> and the running
  \<^verbatim>\<open>visibleIndex\<close>. The state of the descriptor found is returned as read from the map; the
  states of the descriptors before it are dereferenced.
\<close>

fun find_loop ::
  "IViewState js_map \<Rightarrow> string \<Rightarrow> IViewDescriptor list \<Rightarrow> nat \<Rightarrow> nat \<Rightarrow>
   error + (nat \<times> nat \<times> IViewDescriptor \<times> IViewState option)" where
  "find_loop st ident [] i visibleIndex = Inl (ViewDescriptorNotFound ident)"
| "find_loop st ident (v # vs) i visibleIndex =
     (let state = map_of st (id_d v)
      in if id_d v = ident then Inr (i, visibleIndex, v, state)
         else (case state of
                 None \<Rightarrow> Inl TypeError
               | Some s \<Rightarrow>
                   find_loop st ident vs (i + 1)
                     (if visible s then visibleIndex + 1 else visibleIndex)))"

definition find_m ::
  "ContributableViewsModel \<Rightarrow> string \<Rightarrow>
   error + (nat \<times> nat \<times> IViewDescriptor \<times> IViewState option)" where
  "find_m m ident = find_loop (viewStates m) ident (viewDescriptors m) 0 0"

definition isVisible :: "ContributableViewsModel \<Rightarrow> string \<Rightarrow> error + bool" where
  "isVisible m ident =
     (case map_of (viewStates m) ident of
        None \<Rightarrow> Inl (UnknownView ident)
      | Some state \<Rightarrow> Inr (visible state))"

definition isCollapsed :: "ContributableViewsModel \<Rightarrow> string \<Rightarrow> error + bool" where
  "isCollapsed m ident =
     (case map_of (viewStates m) ident of
        None \<Rightarrow> Inl (UnknownView ident)
      | Some state \<Rightarrow> Inr (collapsed state))"

definition getSize :: "ContributableViewsModel \<Rightarrow> string \<Rightarrow> error + int option" where
  "getSize m ident =
     (case map_of (viewStates m) ident of
        None \<Rightarrow> Inl (UnknownView ident)
      | Some state \<Rightarrow> Inr (size_s state))"

definition setVisible ::
  "ContributableViewsModel \<Rightarrow> string \<Rightarrow> bool \<Rightarrow> error + (ContributableViewsModel \<times> event list)" where
  "setVisible m ident vis =
     (case find_m m ident of
        Inl e \<Rightarrow> Inl e
      | Inr (index, visibleIndex, viewDescriptor, state) \<Rightarrow>
          if \<not> canToggleVisibility viewDescriptor then Inl CantToggleVisibility
          else (case state of
                  None \<Rightarrow> Inl TypeError
                | Some s \<Rightarrow>
                    if visible s = vis then Inr (m, [])
                    else
                      (let s' = s\<lparr>visible := vis\<rparr>;
                           m' = m\<lparr>viewStates := AList.update (id_d viewDescriptor) s' (viewStates m)\<rparr>
                       in if vis
                          then Inr (m', [DidAdd visibleIndex viewDescriptor (size_s s') (collapsed s')])
                          else Inr (m', [DidRemove visibleIndex viewDescriptor]))))"

definition setCollapsed ::
  "ContributableViewsModel \<Rightarrow> string \<Rightarrow> bool \<Rightarrow> error + (ContributableViewsModel \<times> event list)" where
  "setCollapsed m ident c =
     (case find_m m ident of
        Inl e \<Rightarrow> Inl e
      | Inr (index, visibleIndex, viewDescriptor, state) \<Rightarrow>
          (case state of
             None \<Rightarrow> Inl TypeError
           | Some s \<Rightarrow>
               Inr (m\<lparr>viewStates :=
                        AList.update (id_d viewDescriptor) (s\<lparr>collapsed := c\<rparr>) (viewStates m)\<rparr>, [])))"

definition setSize ::
  "ContributableViewsModel \<Rightarrow> string \<Rightarrow> int \<Rightarrow> error + (ContributableViewsModel \<times> event list)" where
  "setSize m ident n =
     (case find_m m ident of
        Inl e \<Rightarrow> Inl e
      | Inr (index, visibleIndex, viewDescriptor, state) \<Rightarrow>
          (case state of
             None \<Rightarrow> Inl TypeError
           | Some s \<Rightarrow>
               Inr (m\<lparr>viewStates :=
                        AList.update (id_d viewDescriptor) (s\<lparr>size_s := Some n\<rparr>) (viewStates m)\<rparr>, [])))"

text \<open>
  The loop of \<^verbatim>\<open>move\<close> that renumbers: \<^verbatim>\<open>state.order = index\<close> for the state of every
  descriptor of the list, in list order.
\<close>

fun renumber :: "IViewDescriptor list \<Rightarrow> nat \<Rightarrow> IViewState js_map \<Rightarrow> error + IViewState js_map" where
  "renumber [] index st = Inr st"
| "renumber (v # vs) index st =
     (case map_of st (id_d v) of
        None \<Rightarrow> Inl TypeError
      | Some s \<Rightarrow> renumber vs (index + 1) (AList.update (id_d v) (s\<lparr>order := Some (int index)\<rparr>) st))"

text \<open>
  \<^verbatim>\<open>move(from, to)\<close>. On an empty list \<^verbatim>\<open>arrays.move\<close> puts \<^verbatim>\<open>undefined\<close> into the array and
  the renumbering loop throws on it: a TypeError.
\<close>

definition move ::
  "ContributableViewsModel \<Rightarrow> string \<Rightarrow> string \<Rightarrow> error + (ContributableViewsModel \<times> event list)" where
  "move m fromId toId =
     (let fromIndex = firstIndex (viewDescriptors m) (\<lambda>v. id_d v = fromId);
          toIndex = firstIndex (viewDescriptors m) (\<lambda>v. id_d v = toId);
          fromViewDescriptor = js_index (viewDescriptors m) fromIndex;
          toViewDescriptor = js_index (viewDescriptors m) toIndex
      in case arrays_move (viewDescriptors m) fromIndex toIndex of
           None \<Rightarrow> Inl TypeError
         | Some vds \<Rightarrow>
             (case renumber vds 0 (viewStates m) of
                Inl e \<Rightarrow> Inl e
              | Inr st \<Rightarrow>
                  Inr (m\<lparr>viewDescriptors := vds, viewStates := st\<rparr>,
                       [DidMove fromIndex fromViewDescriptor toIndex toViewDescriptor])))"

subsection \<open>The reconcile pass: onDidChangeViewDescriptors\<close>

text \<open>The default state of a descriptor seen for the first time.\<close>

definition defaultState :: IViewState where
  "defaultState = \<lparr>visible = True, collapsed = False, order = None, size_s = None\<rparr>"

fun createStates :: "IViewDescriptor list \<Rightarrow> IViewState js_map \<Rightarrow> IViewState js_map" where
  "createStates [] st = st"
| "createStates (v # vs) st =
     createStates vs
       (if map_of st (id_d v) = None then AList.update (id_d v) defaultState st else st)"

text \<open>
  The first inner loop of a splice: one remove event, at \<^verbatim>\<open>startIndex\<close>, for every
  descriptor \<^verbatim>\<open>this.viewDescriptors[splice.start + i]\<close> whose state is visible.
\<close>

fun removeEvents ::
  "ContributableViewsModel \<Rightarrow> nat \<Rightarrow> nat \<Rightarrow> nat \<Rightarrow> error + event list" where
  "removeEvents m startIndex k 0 = Inr []"
| "removeEvents m startIndex k (Suc n) =
     (case js_index (viewDescriptors m) (int k) of
        None \<Rightarrow> Inl TypeError
      | Some viewDescriptor \<Rightarrow>
          (case find_m m (id_d viewDescriptor) of
             Inl e \<Rightarrow> Inl e
           | Inr (index, visibleIndex, vd, state) \<Rightarrow>
               (case state of
                  None \<Rightarrow> Inl TypeError
                | Some s \<Rightarrow>
                    (case removeEvents m startIndex (k + 1) n of
                       Inl e \<Rightarrow> Inl e
                     | Inr evs \<Rightarrow>
                         Inr (if visible s then DidRemove startIndex viewDescriptor # evs
                              else evs)))))"

text \<open>
  The second inner loop: one add event for every visible descriptor of \<^verbatim>\<open>splice.toInsert\<close>,
  at \<^verbatim>\<open>startIndex++\<close>.
\<close>

fun addEvents :: "IViewState js_map \<Rightarrow> nat \<Rightarrow> IViewDescriptor list \<Rightarrow> error + event list" where
  "addEvents st startIndex [] = Inr []"
| "addEvents st startIndex (viewDescriptor # vds) =
     (case map_of st (id_d viewDescriptor) of
        None \<Rightarrow> Inl TypeError
      | Some s \<Rightarrow>
          if visible s
          then (case addEvents st (startIndex + 1) vds of
                  Inl e \<Rightarrow> Inl e
                | Inr evs \<Rightarrow> Inr (DidAdd startIndex viewDescriptor (size_s s) (collapsed s) # evs))
          else addEvents st startIndex vds)"

text \<open>
  The body of \<^verbatim>\<open>for (const splice of splices)\<close>: \<^verbatim>\<open>startIndex\<close> is the visible index of the
  descriptor at \<^verbatim>\<open>splice.start\<close>, and \<^verbatim>\<open>this.viewDescriptors.length\<close> when there is none.
\<close>

definition spliceEvents ::
  "ContributableViewsModel \<Rightarrow> IViewDescriptor ISplice \<Rightarrow> error + event list" where
  "spliceEvents m sp =
     (case (case js_index (viewDescriptors m) (int (start sp)) of
              None \<Rightarrow> Inr (length (viewDescriptors m))
            | Some startViewDescriptor \<Rightarrow>
                (case find_m m (id_d startViewDescriptor) of
                   Inl e \<Rightarrow> Inl e
                 | Inr (index, visibleIndex, vd, state) \<Rightarrow> Inr visibleIndex)) of
        Inl e \<Rightarrow> Inl e
      | Inr startIndex \<Rightarrow>
          (case removeEvents m startIndex (start sp) (deleteCount sp) of
             Inl e \<Rightarrow> Inl e
           | Inr rs \<Rightarrow>
               (case addEvents (viewStates m) startIndex (toInsert sp) of
                  Inl e \<Rightarrow> Inl e
                | Inr as \<Rightarrow> Inr (rs @ as))))"

fun splicesEvents ::
  "ContributableViewsModel \<Rightarrow> IViewDescriptor ISplice list \<Rightarrow> error + event list" where
  "splicesEvents m [] = Inr []"
| "splicesEvents m (sp # splices) =
     (case spliceEvents m sp of
        Inl e \<Rightarrow> Inl e
      | Inr evs \<Rightarrow>
          (case splicesEvents m splices of
             Inl e \<Rightarrow> Inl e
           | Inr evs' \<Rightarrow> Inr (evs @ evs')))"

text \<open>
  \<^verbatim>\<open>onDidChangeViewDescriptors(viewDescriptors)\<close>: sort the incoming descriptors, create the
  missing states, diff the stored list against the sorted one, fire the events of the
  splices in reverse, then install the sorted list.
\<close>

definition onDidChangeViewDescriptors ::
  "ContributableViewsModel \<Rightarrow> IViewDescriptor list \<Rightarrow>
   error + (ContributableViewsModel \<times> event list)" where
  "onDidChangeViewDescriptors m incoming =
     (let sorted = sort_cmp (compareViewDescriptors (viewStates m)) incoming;
          m1 = m\<lparr>viewStates := createStates sorted (viewStates m)\<rparr>;
          splices = rev (sortedDiff (viewDescriptors m1) sorted
                           (compareViewDescriptors (viewStates m1)))
      in case splicesEvents m1 splices of
           Inl e \<Rightarrow> Inl e
         | Inr evs \<Rightarrow> Inr (m1\<lparr>viewDescriptors := sorted\<rparr>, evs))"

text \<open>
  The constructor: an empty list, the given map of states, and one reconcile pass over the
  active descriptors of the collection.
\<close>

definition newContributableViewsModel ::
  "IViewState js_map \<Rightarrow> IViewDescriptor list \<Rightarrow> error + (ContributableViewsModel \<times> event list)" where
  "newContributableViewsModel states active =
     onDidChangeViewDescriptors \<lparr>viewDescriptors = [], viewStates = states\<rparr> active"

section \<open>PersistentContributableViewsModel\<close>

text \<open>
  Modelled from the spec: the storage service and the workspace context service, which are
  not among the sources (the spec: "scoped key-value store: \<^verbatim>\<open>get(key, scope, default)\<close>,
  \<^verbatim>\<open>store(key, value, scope)\<close>; scope is global or workspace, selection driven by whether a
  workspace is currently open"). The store is a map from key and scope to the stored string;
  the workbench state is an argument of the operations that ask for it.
\<close>

datatype StorageScope = GLOBAL | WORKSPACE

datatype WorkbenchState = EMPTY | FOLDER | WORKSPACE_OPEN

type_synonym storage = "string \<times> StorageScope \<rightharpoonup> string"

definition storage_get :: "storage \<Rightarrow> string \<Rightarrow> StorageScope \<Rightarrow> string \<Rightarrow> string" where
  "storage_get st key scope defaultValue =
     (case st (key, scope) of None \<Rightarrow> defaultValue | Some v \<Rightarrow> v)"

definition storage_store :: "storage \<Rightarrow> string \<Rightarrow> string \<Rightarrow> StorageScope \<Rightarrow> storage" where
  "storage_store st key v scope = st((key, scope) \<mapsto> v)"

text \<open>
  \<^verbatim>\<open>ISerializedViewState[]\<close> is a list of pairs of id and state. \<^verbatim>\<open>JSON.stringify\<close> and
  \<^verbatim>\<open>JSON.parse\<close> are built in: they are the parameters \<open>stringify\<close> and \<open>parseJSON\<close>, the
  latter with \<^const>\<open>None\<close> for a SyntaxError.
\<close>

type_synonym ISerializedViewState = "string \<times> IViewState"

record PersistentContributableViewsModel =
  base :: ContributableViewsModel
  viewletStateStorageId :: string

definition storageScope :: "WorkbenchState \<Rightarrow> StorageScope" where
  "storageScope workbenchState = (if workbenchState \<noteq> EMPTY then WORKSPACE else GLOBAL)"

text \<open>
  The constructor: read the key in the scope of the workbench state, parse, set every pair
  into a new map, then construct the base model with that map.
\<close>

definition newPersistentContributableViewsModel ::
  "(string \<Rightarrow> ISerializedViewState list option) \<Rightarrow> storage \<Rightarrow> WorkbenchState \<Rightarrow> string \<Rightarrow>
   IViewDescriptor list \<Rightarrow> error + (PersistentContributableViewsModel \<times> event list)" where
  "newPersistentContributableViewsModel parseJSON st workbenchState storageId incoming =
     (let scope = storageScope workbenchState;
          raw = storage_get st storageId scope ''[]''
      in case parseJSON raw of
           None \<Rightarrow> Inl SyntaxError
         | Some serializedViewsStates \<Rightarrow>
             (let states = fold (\<lambda>(ident, state) m. AList.update ident state m)
                             serializedViewsStates []
              in case newContributableViewsModel states incoming of
                   Inl e \<Rightarrow> Inl e
                 | Inr (m, evs) \<Rightarrow> Inr (\<lparr>base = m, viewletStateStorageId = storageId\<rparr>, evs)))"

text \<open>
  \<^verbatim>\<open>saveViewsStates()\<close>: every entry of the map, in its order, as a pair; the string of the
  array is stored under the key in the scope of the workbench state. The result is the store
  after the call.
\<close>

definition saveViewsStates ::
  "(ISerializedViewState list \<Rightarrow> string) \<Rightarrow> storage \<Rightarrow> WorkbenchState \<Rightarrow>
   PersistentContributableViewsModel \<Rightarrow> storage" where
  "saveViewsStates stringify st workbenchState pm =
     (let serializedViewStates = map (\<lambda>(ident, state). (ident, state)) (viewStates (base pm));
          raw = stringify serializedViewStates;
          scope = storageScope workbenchState
      in storage_store st (viewletStateStorageId pm) raw scope)"

section \<open>ViewDescriptorCollection\<close>

text \<open>
  \<^verbatim>\<open>CounterSet<string>\<close>: a \<^verbatim>\<open>Map\<close> from value to counter. \<^verbatim>\<open>add\<close> stores
  \<^verbatim>\<open>(get(value) || 0) + 1\<close>; \<^verbatim>\<open>delete\<close> returns false on a counter of 0, and otherwise
  decrements, dropping the entry when it reaches 0; \<^verbatim>\<open>has\<close> asks the map.
\<close>

definition counter_add :: "nat js_map \<Rightarrow> string \<Rightarrow> nat js_map" where
  "counter_add cs v = AList.update v ((case map_of cs v of None \<Rightarrow> 0 | Some n \<Rightarrow> n) + 1) cs"

definition counter_delete :: "nat js_map \<Rightarrow> string \<Rightarrow> bool \<times> nat js_map" where
  "counter_delete cs v =
     (let counter = (case map_of cs v of None \<Rightarrow> 0 | Some n \<Rightarrow> n)
      in if counter = 0 then (False, cs)
         else if counter - 1 = 0 then (True, AList.delete v cs)
         else (True, AList.update v (counter - 1) cs))"

definition counter_has :: "nat js_map \<Rightarrow> string \<Rightarrow> bool" where
  "counter_has cs v = (map_of cs v \<noteq> None)"

record IViewItem =
  viewDescriptor :: IViewDescriptor
  active :: bool

record ViewDescriptorCollection =
  contextKeys :: "nat js_map"
  items :: "IViewItem list"

text \<open>The getter \<^verbatim>\<open>viewDescriptors\<close> of the collection: the descriptors of the active items.\<close>

definition activeViewDescriptors :: "ViewDescriptorCollection \<Rightarrow> IViewDescriptor list" where
  "activeViewDescriptors c = map viewDescriptor (filter active (items c))"

text \<open>
  \<^verbatim>\<open>for (const key of viewDescriptor.when.keys()) this.contextKeys.delete(key)\<close>, guarded by
  \<^verbatim>\<open>if (viewDescriptor.when)\<close>.
\<close>

definition deleteKeys :: "IViewDescriptor \<Rightarrow> nat js_map \<Rightarrow> nat js_map" where
  "deleteKeys vd cs =
     (case when_keys vd of
        None \<Rightarrow> cs
      | Some ks \<Rightarrow> fold (\<lambda>key m. snd (counter_delete m key)) ks cs)"

text \<open>
  The loop of \<^verbatim>\<open>onViewsDeregistered\<close> over the batch, with the collection and the flag
  \<^verbatim>\<open>fireChangeEvent\<close>.
\<close>

fun deregister_loop ::
  "IViewDescriptor list \<Rightarrow> ViewDescriptorCollection \<Rightarrow> bool \<Rightarrow> ViewDescriptorCollection \<times> bool" where
  "deregister_loop [] c fireChangeEvent = (c, fireChangeEvent)"
| "deregister_loop (vd # vds) c fireChangeEvent =
     (let index = firstIndex (items c) (\<lambda>i. id_d (viewDescriptor i) = id_d vd)
      in if index = - 1 then deregister_loop vds c fireChangeEvent
         else
           (let item = items c ! nat index;
                c' = c\<lparr>items := snd (js_splice (items c) index 1 []),
                       contextKeys := deleteKeys vd (contextKeys c)\<rparr>
            in deregister_loop vds c' (fireChangeEvent \<or> active item)))"

text \<open>
  \<^verbatim>\<open>onViewsDeregistered(viewDescriptors)\<close>: the collection after the call and the number of
  times \<^verbatim>\<open>_onDidChange.fire()\<close> ran.
\<close>

definition onViewsDeregistered ::
  "ViewDescriptorCollection \<Rightarrow> IViewDescriptor list \<Rightarrow> ViewDescriptorCollection \<times> nat" where
  "onViewsDeregistered c vds =
     (case deregister_loop vds c False of
        (c', fireChangeEvent) \<Rightarrow> (c', if fireChangeEvent then 1 else 0))"

section \<open>The comments model (commentModel.ts)\<close>

text \<open>
  \<^verbatim>\<open>Comment\<close> and \<^verbatim>\<open>IRange\<close> (vs/editor/common/modes and core/range) are only passed through:
  a comment is its text here, a range its four numbers. A \<^verbatim>\<open>CommentThread\<close> carries its
  resource as a string. \<^verbatim>\<open>URI\<close> (vs/base/common/uri) is not among the sources: the type of
  parsed URIs is a type variable, and \<^verbatim>\<open>URI.parse\<close> and \<^verbatim>\<open>toString\<close> are parameters
  \<open>parse\<close> and \<open>toStr\<close> of the operations that call them.
\<close>

type_synonym Comment = string

record IRange =
  startLineNumber :: int
  startColumn :: int
  endLineNumber :: int
  endColumn :: int

record CommentThread =
  threadId :: string
  resource :: string
  range_t :: IRange
  comments :: "Comment list"

text \<open>\<^verbatim>\<open>class CommentNode\<close>; the constructor leaves \<^verbatim>\<open>replies\<close> empty.\<close>

datatype 'u CommentNode =
  CommentNode (threadId_n: string) (resource_n: 'u) (comment: Comment) (range_n: IRange)
    (replies: "'u CommentNode list")

definition newCommentNode :: "string \<Rightarrow> 'u \<Rightarrow> Comment \<Rightarrow> IRange \<Rightarrow> 'u CommentNode" where
  "newCommentNode tid res c rng = CommentNode tid res c rng []"

definition hasReply :: "'u CommentNode \<Rightarrow> bool" where
  "hasReply n = (length (replies n) \<noteq> 0)"

text \<open>
  \<^verbatim>\<open>createCommentNode(resource, commentThread)\<close>: \<^verbatim>\<open>commentNodes[0]\<close>, which is \<^verbatim>\<open>undefined\<close>
  (\<^const>\<open>None\<close>) for a thread without comments.
\<close>

definition createCommentNode :: "'u \<Rightarrow> CommentThread \<Rightarrow> 'u CommentNode option" where
  "createCommentNode res commentThread =
     (let commentNodes =
            map (\<lambda>c. newCommentNode (threadId commentThread) res c (range_t commentThread))
              (comments commentThread)
      in case commentNodes of
           [] \<Rightarrow> None
         | n # ns \<Rightarrow>
             Some (if length commentNodes > 1
                   then CommentNode (threadId_n n) (resource_n n) (comment n) (range_n n)
                          (drop 1 commentNodes)
                   else n))"

text \<open>
  \<^verbatim>\<open>class ResourceWithCommentThreads\<close>; an element of \<^verbatim>\<open>commentThreads\<close> is \<^verbatim>\<open>undefined\<close>
  where \<^verbatim>\<open>createCommentNode\<close> returned it.
\<close>

record 'u ResourceWithCommentThreads =
  id_r :: string
  commentThreads :: "'u CommentNode option list"
  resource_r :: 'u

definition newResourceWithCommentThreads ::
  "('u \<Rightarrow> string) \<Rightarrow> 'u \<Rightarrow> CommentThread list \<Rightarrow> 'u ResourceWithCommentThreads" where
  "newResourceWithCommentThreads toStr res threads =
     \<lparr>id_r = toStr res,
      commentThreads = map (\<lambda>thread. createCommentNode res thread) threads,
      resource_r = res\<rparr>"

record 'u CommentsModel =
  resourceCommentThreads :: "'u ResourceWithCommentThreads list"

definition newCommentsModel :: "'u CommentsModel" where
  "newCommentsModel = \<lparr>resourceCommentThreads = []\<rparr>"

text \<open>\<^verbatim>\<open>_compareURIs\<close>: the resources of two threads compared as strings.\<close>

definition compareURIs :: "CommentThread \<Rightarrow> CommentThread \<Rightarrow> number" where
  "compareURIs a b =
     (let resourceA = resource a; resourceB = resource b
      in if resourceA < resourceB then Num (- 1)
         else if resourceA > resourceB then Num 1
         else Num 0)"

text \<open>
  Modelled from the spec: \<^verbatim>\<open>groupBy\<close> of vs/base/common/arrays, which is not among the
  sources (the spec: "sort/group the flat thread list by resource identity string (stable
  grouping ...)"): a stable sort of a copy of the data, then one group for every run of
  elements that compare equal to the first element of the run. The loop carries the groups
  that are complete and the group that is being filled.
\<close>

fun groupBy_loop ::
  "('a \<Rightarrow> 'a \<Rightarrow> number) \<Rightarrow> 'a list \<Rightarrow> 'a list list \<Rightarrow> 'a list \<Rightarrow> 'a list list" where
  "groupBy_loop compare [] result currentGroup =
     (if currentGroup = [] then result else result @ [currentGroup])"
| "groupBy_loop compare (element # rest) result currentGroup =
     (case currentGroup of
        [] \<Rightarrow> groupBy_loop compare rest result [element]
      | first # _ \<Rightarrow>
          if \<not> is_zero (compare first element)
          then groupBy_loop compare rest (result @ [currentGroup]) [element]
          else groupBy_loop compare rest result (currentGroup @ [element]))"

definition groupBy :: "'a list \<Rightarrow> ('a \<Rightarrow> 'a \<Rightarrow> number) \<Rightarrow> 'a list list" where
  "groupBy data compare = groupBy_loop compare (sort_cmp compare data) [] []"

text \<open>
  \<^verbatim>\<open>addCommentThreads\<close>: a \<^verbatim>\<open>Map\<close> from \<^verbatim>\<open>group[0].resource\<close> to the new entry of the group,
  then every value of the map, in insertion order, is pushed onto
  \<^verbatim>\<open>resourceCommentThreads\<close>. Reading \<^verbatim>\<open>group[0].resource\<close> of an empty group throws.
\<close>

fun groupsToMap ::
  "(string \<Rightarrow> 'u) \<Rightarrow> ('u \<Rightarrow> string) \<Rightarrow> CommentThread list list \<Rightarrow>
   'u ResourceWithCommentThreads js_map \<Rightarrow> error + 'u ResourceWithCommentThreads js_map" where
  "groupsToMap parse toStr [] commentThreadsByResource = Inr commentThreadsByResource"
| "groupsToMap parse toStr (grp # groups) commentThreadsByResource =
     (case grp of
        [] \<Rightarrow> Inl TypeError
      | g0 # _ \<Rightarrow>
          groupsToMap parse toStr groups
            (AList.update (resource g0)
               (newResourceWithCommentThreads toStr (parse (resource g0)) grp)
               commentThreadsByResource))"

definition addCommentThreads ::
  "(string \<Rightarrow> 'u) \<Rightarrow> ('u \<Rightarrow> string) \<Rightarrow> 'u CommentsModel \<Rightarrow> CommentThread list \<Rightarrow>
   error + 'u CommentsModel" where
  "addCommentThreads parse toStr m threads =
     (case groupsToMap parse toStr (groupBy threads compareURIs) [] of
        Inl e \<Rightarrow> Inl e
      | Inr commentThreadsByResource \<Rightarrow>
          Inr (m\<lparr>resourceCommentThreads :=
                   resourceCommentThreads m @ map snd commentThreadsByResource\<rparr>))"

definition setCommentThreads ::
  "(string \<Rightarrow> 'u) \<Rightarrow> ('u \<Rightarrow> string) \<Rightarrow> 'u CommentsModel \<Rightarrow> CommentThread list \<Rightarrow>
   error + 'u CommentsModel" where
  "setCommentThreads parse toStr m threads =
     addCommentThreads parse toStr (m\<lparr>resourceCommentThreads := []\<rparr>) threads"

text \<open>
  \<^verbatim>\<open>firstIndex(matchingResourceData.commentThreads, commentThread => commentThread.threadId
  === thread.threadId)\<close>: the predicate throws on an \<^verbatim>\<open>undefined\<close> element it reaches.
\<close>

fun threadIndex :: "'u CommentNode option list \<Rightarrow> string \<Rightarrow> int \<Rightarrow> error + int" where
  "threadIndex [] tid i = Inr (- 1)"
| "threadIndex (None # ns) tid i = Inl TypeError"
| "threadIndex (Some n # ns) tid i =
     (if threadId_n n = tid then Inr i else threadIndex ns tid (i + 1))"

text \<open>
  \<^verbatim>\<open>array[index] = value\<close> for an index that \<^verbatim>\<open>firstIndex\<close> returned: at \<^verbatim>\<open>-1\<close> the elements
  of the array stay as they are.
\<close>

definition js_assign :: "'a list \<Rightarrow> int \<Rightarrow> 'a \<Rightarrow> 'a list" where
  "js_assign xs i v = (if 0 \<le> i \<and> i < int (length xs) then xs[nat i := v] else xs)"

text \<open>The body of \<^verbatim>\<open>event.removed.forEach\<close>.\<close>

definition removeThread :: "'u CommentsModel \<Rightarrow> CommentThread \<Rightarrow> error + 'u CommentsModel" where
  "removeThread m thread =
     (let matchingResourceIndex =
            firstIndex (resourceCommentThreads m) (\<lambda>resourceData. id_r resourceData = resource thread)
      in case js_index (resourceCommentThreads m) matchingResourceIndex of
           None \<Rightarrow> Inl TypeError
         | Some matchingResourceData \<Rightarrow>
             (case threadIndex (commentThreads matchingResourceData) (threadId thread) 0 of
                Inl e \<Rightarrow> Inl e
              | Inr index \<Rightarrow>
                  (let threads' = snd (js_splice (commentThreads matchingResourceData) index 1 []);
                       data' = matchingResourceData\<lparr>commentThreads := threads'\<rparr>;
                       rct' = js_assign (resourceCommentThreads m) matchingResourceIndex data'
                   in if length threads' = 0
                      then Inr (m\<lparr>resourceCommentThreads :=
                                    snd (js_splice rct' matchingResourceIndex 1 [])\<rparr>)
                      else Inr (m\<lparr>resourceCommentThreads := rct'\<rparr>))))"

text \<open>The body of \<^verbatim>\<open>event.changed.forEach\<close>.\<close>

definition changeThread ::
  "(string \<Rightarrow> 'u) \<Rightarrow> 'u CommentsModel \<Rightarrow> CommentThread \<Rightarrow> error + 'u CommentsModel" where
  "changeThread parse m thread =
     (let matchingResourceIndex =
            firstIndex (resourceCommentThreads m) (\<lambda>resourceData. id_r resourceData = resource thread)
      in case js_index (resourceCommentThreads m) matchingResourceIndex of
           None \<Rightarrow> Inl TypeError
         | Some matchingResourceData \<Rightarrow>
             (case threadIndex (commentThreads matchingResourceData) (threadId thread) 0 of
                Inl e \<Rightarrow> Inl e
              | Inr index \<Rightarrow>
                  (let data' = matchingResourceData
                         \<lparr>commentThreads :=
                            js_assign (commentThreads matchingResourceData) index
                              (createCommentNode (parse (id_r matchingResourceData)) thread)\<rparr>
                   in Inr (m\<lparr>resourceCommentThreads :=
                                js_assign (resourceCommentThreads m) matchingResourceIndex data'\<rparr>))))"

text \<open>A \<^verbatim>\<open>forEach\<close> whose body may throw.\<close>

fun forEach_e :: "('s \<Rightarrow> 'a \<Rightarrow> error + 's) \<Rightarrow> 'a list \<Rightarrow> 's \<Rightarrow> error + 's" where
  "forEach_e body [] s = Inr s"
| "forEach_e body (x # xs) s =
     (case body s x of Inl e \<Rightarrow> Inl e | Inr s' \<Rightarrow> forEach_e body xs s')"

record CommentThreadChangedEvent =
  added :: "CommentThread list"
  removed :: "CommentThread list"
  changed :: "CommentThread list"

definition updateCommentThreads ::
  "(string \<Rightarrow> 'u) \<Rightarrow> ('u \<Rightarrow> string) \<Rightarrow> 'u CommentsModel \<Rightarrow> CommentThreadChangedEvent \<Rightarrow>
   error + 'u CommentsModel" where
  "updateCommentThreads parse toStr m event =
     (case forEach_e removeThread (removed event) m of
        Inl e \<Rightarrow> Inl e
      | Inr m1 \<Rightarrow>
          (case forEach_e (changeThread parse) (changed event) m1 of
             Inl e \<Rightarrow> Inl e
           | Inr m2 \<Rightarrow> addCommentThreads parse toStr m2 (added event)))"

definition hasCommentThreads :: "'u CommentsModel \<Rightarrow> bool" where
  "hasCommentThreads m = (length (resourceCommentThreads m) \<noteq> 0)"

section \<open>Auxiliary definitions of the proofs\<close>

subsection \<open>The public operations\<close>

text \<open>
  The calls that change an instance after its construction: a reconcile pass (fired by the
  collection's change signal) and the four public mutators.
\<close>

datatype operation =
  Reconcile "IViewDescriptor list"
  | SetVisible string bool
  | SetCollapsed string bool
  | SetSize string int
  | Move string string

fun perform ::
  "ContributableViewsModel \<Rightarrow> operation \<Rightarrow> error + (ContributableViewsModel \<times> event list)" where
  "perform m (Reconcile incoming) = onDidChangeViewDescriptors m incoming"
| "perform m (SetVisible ident vis) = setVisible m ident vis"
| "perform m (SetCollapsed ident c) = setCollapsed m ident c"
| "perform m (SetSize ident n) = setSize m ident n"
| "perform m (Move fromId toId) = move m fromId toId"

subsection \<open>The invariant and the visible projection\<close>

text \<open>Every descriptor of the stored list has a state in the map.\<close>

definition has_states :: "ContributableViewsModel \<Rightarrow> bool" where
  "has_states m = list_all (\<lambda>v. map_of (viewStates m) (id_d v) \<noteq> None) (viewDescriptors m)"

text \<open>A descriptor is visible when the map holds a state for its id that is visible.\<close>

definition visible_in :: "IViewState js_map \<Rightarrow> IViewDescriptor \<Rightarrow> bool" where
  "visible_in st v = (case map_of st (id_d v) of None \<Rightarrow> False | Some s \<Rightarrow> visible s)"

text \<open>The raw index of the first descriptor with the given id.\<close>

definition raw_index :: "string \<Rightarrow> IViewDescriptor list \<Rightarrow> nat" where
  "raw_index ident vs = length (takeWhile (\<lambda>v. id_d v \<noteq> ident) vs)"

text \<open>The visible index of raw index \<open>k\<close>: the number of visible descriptors before it.\<close>

definition visible_index :: "IViewState js_map \<Rightarrow> IViewDescriptor list \<Rightarrow> nat \<Rightarrow> nat" where
  "visible_index st vs k = length (filter (visible_in st) (take k vs))"

subsection \<open>Orders, splices, moves, counters and groups\<close>

text \<open>
  The comparator orders descriptors by the pair of effective order (every integer before
  \<^verbatim>\<open>+Infinity\<close>) and id.
\<close>

definition order_key :: "IViewState js_map \<Rightarrow> IViewDescriptor \<Rightarrow> (nat \<times> int) \<times> string" where
  "order_key st a =
     ((case effectiveOrder st a of Num n \<Rightarrow> (0, n) | _ \<Rightarrow> (1, 0)), id_d a)"

text \<open>A splice stays inside an array of length \<open>n\<close> and inserts elements of \<open>A\<close> only.\<close>

definition splice_ok :: "nat \<Rightarrow> 'a set \<Rightarrow> 'a ISplice \<Rightarrow> bool" where
  "splice_ok n A sp = (start sp + deleteCount sp \<le> n \<and> set (toInsert sp) \<subseteq> A)"

text \<open>The list after taking the element at \<open>i\<close> out and putting it back at \<open>j\<close>.\<close>

definition moved_list :: "'a list \<Rightarrow> nat \<Rightarrow> nat \<Rightarrow> 'a list" where
  "moved_list vs i j =
     take j (take i vs @ drop (Suc i) vs) @ [vs ! i] @ drop j (take i vs @ drop (Suc i) vs)"

text \<open>The counter of a value: 0 when the set has no entry for it.\<close>

definition count_of :: "nat js_map \<Rightarrow> string \<Rightarrow> nat" where
  "count_of cs v = (case map_of cs v of None \<Rightarrow> 0 | Some n \<Rightarrow> n)"

text \<open>The context keys of a descriptor: none without a \<^verbatim>\<open>when\<close> expression.\<close>

definition keys_of :: "IViewDescriptor \<Rightarrow> string list" where
  "keys_of vd = (case when_keys vd of None \<Rightarrow> [] | Some ks \<Rightarrow> ks)"

text \<open>All threads of a group have the resource of its first thread.\<close>

definition same_resource :: "CommentThread list \<Rightarrow> bool" where
  "same_resource g = list_all (\<lambda>t. resource t = resource (hd g)) g"

subsection \<open>A listener of the add and remove events\<close>

text \<open>
  A listener keeps the visible descriptors in a list and applies every event at the index it
  carries: an add inserts the descriptor at the index, which must be at most the length of
  the list; a remove deletes the element at the index, which must be the descriptor of the
  event. \<^const>\<open>None\<close>: the index is not a valid insertion or removal point.
\<close>

fun apply_event :: "event \<Rightarrow> IViewDescriptor list \<Rightarrow> IViewDescriptor list option" where
  "apply_event (DidAdd i v sz c) vs =
     (if i \<le> length vs then Some (take i vs @ [v] @ drop i vs) else None)"
| "apply_event (DidRemove i v) vs =
     (if i < length vs \<and> vs ! i = v then Some (take i vs @ drop (Suc i) vs) else None)"
| "apply_event (DidMove i v j w) vs = Some vs"

fun apply_events :: "event list \<Rightarrow> IViewDescriptor list \<Rightarrow> IViewDescriptor list option" where
  "apply_events [] vs = Some vs"
| "apply_events (e # es) vs =
     (case apply_event e vs of None \<Rightarrow> None | Some vs' \<Rightarrow> apply_events es vs')"

text \<open>
  Splices in reverse order (the order of the reconcile loop) are ordered below \<open>i\<close> when the
  first ends at or before \<open>i\<close> and each following one ends at or before the start of its
  predecessor.
\<close>

fun ordered_rev :: "'a ISplice list \<Rightarrow> nat \<Rightarrow> bool" where
  "ordered_rev [] i = True"
| "ordered_rev (sp # rs) i = (start sp + deleteCount sp \<le> i \<and> ordered_rev rs (start sp))"

text \<open>
  The visible descriptors of the first \<open>i\<close> stored descriptors after the splices, given in
  reverse order, have been applied to them.
\<close>

fun visible_after ::
  "IViewState js_map \<Rightarrow> IViewDescriptor list \<Rightarrow> IViewDescriptor ISplice list \<Rightarrow> nat \<Rightarrow>
   IViewDescriptor list" where
  "visible_after st old [] i = filter (visible_in st) (take i old)"
| "visible_after st old (sp # rs) i =
     visible_after st old rs (start sp) @ filter (visible_in st) (toInsert sp)
       @ filter (visible_in st)
           (take (i - (start sp + deleteCount sp)) (drop (start sp + deleteCount sp) old))"

text \<open>
  The fallback index of a splice is right: the splice starts inside the stored list, or every
  stored descriptor is visible, or the splice inserts no visible descriptor.
\<close>

definition index_ok ::
  "IViewState js_map \<Rightarrow> IViewDescriptor list \<Rightarrow> IViewDescriptor ISplice \<Rightarrow> bool" where
  "index_ok st old sp =
     (start sp < length old \<or> length (filter (visible_in st) old) = length old
      \<or> filter (visible_in st) (toInsert sp) = [])"

text \<open>The fallback index is right for every splice of a reconcile pass over \<open>incoming\<close>.\<close>

definition fallback_index_right :: "ContributableViewsModel \<Rightarrow> IViewDescriptor list \<Rightarrow> bool" where
  "fallback_index_right m incoming =
     (let sorted = sort_cmp (compareViewDescriptors (viewStates m)) incoming;
          st1 = createStates sorted (viewStates m)
      in list_all (index_ok st1 (viewDescriptors m))
           (sortedDiff (viewDescriptors m) sorted (compareViewDescriptors st1)))"

section \<open>Examples\<close>

definition view_a :: IViewDescriptor where
  "view_a = \<lparr>id_d = ''a'', when_keys = None, order_d = None, canToggleVisibility = True\<rparr>"

definition view_b :: IViewDescriptor where
  "view_b = \<lparr>id_d = ''b'', when_keys = None, order_d = None, canToggleVisibility = True\<rparr>"

definition view_c :: IViewDescriptor where
  "view_c = \<lparr>id_d = ''c'', when_keys = None, order_d = None, canToggleVisibility = True\<rparr>"

definition view_x :: IViewDescriptor where
  "view_x = \<lparr>id_d = ''x'', when_keys = None, order_d = Some 2, canToggleVisibility = True\<rparr>"

definition view_y :: IViewDescriptor where
  "view_y = \<lparr>id_d = ''y'', when_keys = Some [''k''], order_d = Some 1, canToggleVisibility = False\<rparr>"

definition hidden :: IViewState where
  "hidden = \<lparr>visible = False, collapsed = False, order = None, size_s = None\<rparr>"

definition model_ab :: ContributableViewsModel where
  "model_ab = \<lparr>viewDescriptors = [view_a, view_b],
               viewStates = [(''a'', hidden), (''b'', defaultState)]\<rparr>"

definition model_ab_x :: ContributableViewsModel where
  "model_ab_x = \<lparr>viewDescriptors = [view_x, view_a, view_b],
                 viewStates = [(''a'', hidden), (''b'', defaultState), (''x'', defaultState)]\<rparr>"

definition model_abc :: ContributableViewsModel where
  "model_abc = \<lparr>viewDescriptors = [view_a, view_b, view_c],
                viewStates = [(''a'', defaultState), (''b'', defaultState), (''c'', defaultState)]\<rparr>"

definition model_bca :: ContributableViewsModel where
  "model_bca = \<lparr>viewDescriptors = [view_b, view_c, view_a],
                viewStates = [(''a'', defaultState\<lparr>order := Some 2\<rparr>),
                              (''b'', defaultState\<lparr>order := Some 0\<rparr>),
                              (''c'', defaultState\<lparr>order := Some 1\<rparr>)]\<rparr>"

definition model_bac :: ContributableViewsModel where
  "model_bac = \<lparr>viewDescriptors = [view_b, view_a, view_c],
                viewStates = [(''a'', defaultState\<lparr>order := Some 1\<rparr>),
                              (''b'', defaultState\<lparr>order := Some 0\<rparr>),
                              (''c'', defaultState\<lparr>order := Some 2\<rparr>)]\<rparr>"

definition model_a_hidden :: ContributableViewsModel where
  "model_a_hidden = \<lparr>viewDescriptors = [view_a], viewStates = [(''a'', hidden)]\<rparr>"

definition collection_xy :: ViewDescriptorCollection where
  "collection_xy = \<lparr>contextKeys = [(''k'', 1)],
                    items = [\<lparr>viewDescriptor = view_x, active = True\<rparr>,
                             \<lparr>viewDescriptor = view_y, active = False\<rparr>]\<rparr>"

definition range_1 :: IRange where
  "range_1 = \<lparr>startLineNumber = 1, startColumn = 1, endLineNumber = 1, endColumn = 5\<rparr>"

definition thread_t1 :: CommentThread where
  "thread_t1 = \<lparr>threadId = ''t1'', resource = ''file:///a.ts'', range_t = range_1,
                comments = [''first'', ''second'']\<rparr>"

definition thread_t2 :: CommentThread where
  "thread_t2 = \<lparr>threadId = ''t2'', resource = ''file:///a.ts'', range_t = range_1,
                comments = [''third'']\<rparr>"

definition entry_t1 :: "string ResourceWithCommentThreads" where
  "entry_t1 =
     \<lparr>id_r = ''file:///a.ts'',
      commentThreads =
        [Some (CommentNode ''t1'' ''file:///a.ts'' ''first'' range_1
                 [CommentNode ''t1'' ''file:///a.ts'' ''second'' range_1 []])],
      resource_r = ''file:///a.ts''\<rparr>"

definition entry_t2 :: "string ResourceWithCommentThreads" where
  "entry_t2 =
     \<lparr>id_r = ''file:///a.ts'',
      commentThreads = [Some (CommentNode ''t2'' ''file:///a.ts'' ''third'' range_1 [])],
      resource_r = ''file:///a.ts''\<rparr>"

definition persistent_ab :: PersistentContributableViewsModel where
  "persistent_ab = \<lparr>base = model_ab, viewletStateStorageId = ''views.state''\<rparr>"

text \<open>A codec that is right on the one array the example stores.\<close>

definition example_stringify :: "ISerializedViewState list \<Rightarrow> string" where
  "example_stringify xs = (if xs = viewStates model_ab then ''saved'' else ''[]'')"

definition example_parse :: "string \<Rightarrow> ISerializedViewState list option" where
  "example_parse s = (if s = ''saved'' then Some (viewStates model_ab) else Some [])"

section \<open>The comparator\<close>

lemma effectiveOrder_cases:
  "(\<exists>n. effectiveOrder st a = Num n) \<or> effectiveOrder st a = PInf"
  by (simp add: effectiveOrder_def split: option.splits)

lemma is_pos_compare:
  "is_pos (compareViewDescriptors st a b) \<longleftrightarrow> order_key st b < order_key st a"
  using effectiveOrder_cases [of st a] effectiveOrder_cases [of st b]
  by (auto simp: compareViewDescriptors_def order_key_def Let_def less_prod_def)

lemma is_neg_compare:
  "is_neg (compareViewDescriptors st a b) \<longleftrightarrow> order_key st a < order_key st b"
  using effectiveOrder_cases [of st a] effectiveOrder_cases [of st b]
  by (auto simp: compareViewDescriptors_def order_key_def Let_def less_prod_def)

lemma is_zero_compare:
  "is_zero (compareViewDescriptors st a b) \<longleftrightarrow> order_key st a = order_key st b"
  using effectiveOrder_cases [of st a] effectiveOrder_cases [of st b]
  by (auto simp: compareViewDescriptors_def order_key_def Let_def)

lemma insort_cmp_key:
  "insort_cmp (compareViewDescriptors st) x xs = insort_key (order_key st) x xs"
  by (induction xs) (auto simp: is_pos_compare)

lemma sort_cmp_key:
  "sort_cmp (compareViewDescriptors st) xs = sort_key (order_key st) xs"
proof -
  have "insort_cmp (compareViewDescriptors st) = insort_key (order_key st)"
    by (intro ext) (rule insort_cmp_key)
  then show ?thesis by (simp add: sort_cmp_def sort_key_def)
qed

lemma sorted_cmp_key:
  "sorted_cmp (compareViewDescriptors st) xs \<longleftrightarrow> sorted (map (order_key st) xs)"
  by (induction xs) (auto simp: is_pos_compare list_all_iff not_less)

lemma order_key_inj: "distinct (map id_d xs) \<Longrightarrow> inj_on (order_key st) (set xs)"
proof (rule inj_onI)
  fix x y
  assume d: "distinct (map id_d xs)" and x: "x \<in> set xs" and y: "y \<in> set xs"
    and "order_key st x = order_key st y"
  then have "id_d x = id_d y" by (simp add: order_key_def)
  with d x y show "x = y"
    by (meson distinct_map inj_onD)
qed

lemma sorted_perm_unique:
  assumes "distinct (map id_d xs)" and "mset ys = mset xs"
    and "sorted_cmp (compareViewDescriptors st) xs"
    and "sorted_cmp (compareViewDescriptors st) ys"
  shows "ys = xs"
proof -
  have sxy: "set ys = set xs" using assms(2) by (metis mset_eq_setD)
  have inj: "inj_on (order_key st) (set xs)" using assms(1) by (rule order_key_inj)
  have dx: "distinct xs" using assms(1) by (simp add: distinct_map)
  then have dy: "distinct ys" using assms(2) by (metis mset_eq_imp_distinct_iff)
  have "distinct (map (order_key st) xs)" "distinct (map (order_key st) ys)"
    using inj dx dy sxy by (simp_all add: distinct_map)
  moreover have "set (map (order_key st) xs) = set (map (order_key st) ys)"
    using sxy by simp
  ultimately have "map (order_key st) xs = map (order_key st) ys"
    using assms(3,4) by (auto simp: sorted_cmp_key intro: sorted_distinct_set_unique)
  then show ?thesis using inj sxy
    by (metis inj_on_map_eq_map sup.idem inj_on_Un)
qed

lemma sort_cmp_sorted:
  "sorted_cmp (compareViewDescriptors st) (sort_cmp (compareViewDescriptors st) xs)"
  by (simp add: sorted_cmp_key sort_cmp_key)

lemma sort_cmp_mset: "mset (sort_cmp (compareViewDescriptors st) xs) = mset xs"
  by (simp add: sort_cmp_key)

lemma sort_cmp_unique:
  assumes "distinct (map id_d xs)" and "mset ys = mset xs"
    and "sorted_cmp (compareViewDescriptors st) ys"
  shows "ys = sort_cmp (compareViewDescriptors st) xs"
proof -
  have "mset (map id_d ys) = mset (map id_d xs)" using assms(2) by simp
  then have "distinct (map id_d ys)"
    using assms(1) mset_eq_imp_distinct_iff by blast
  moreover have "mset (sort_cmp (compareViewDescriptors st) xs) = mset ys"
    using assms(2) by (simp add: sort_cmp_mset)
  ultimately show ?thesis
    using sorted_perm_unique [of ys "sort_cmp (compareViewDescriptors st) xs" st] assms(3)
    by (simp add: sort_cmp_sorted)
qed

text \<open>
  C2. For fixed view states the comparator is a strict total order on descriptors: every
  result is zero, negative or positive; \<^verbatim>\<open>compare(a, b)\<close> is negative exactly when
  \<^verbatim>\<open>compare(b, a)\<close> is positive; negative results are transitive; the result is zero only
  when the ids are equal (and is zero on a descriptor and itself). Hence sorting is
  deterministic: for descriptors with pairwise distinct ids, every arrangement of them that
  is in comparator order is the list that the sort returns, and sorting two arrangements of
  the same descriptors gives the same list.
\<close>

theorem compareViewDescriptors_strict_total_order:
  "(is_zero (compareViewDescriptors st a b) \<or> is_neg (compareViewDescriptors st a b)
      \<or> is_pos (compareViewDescriptors st a b))
   \<and> (is_neg (compareViewDescriptors st a b) \<longleftrightarrow> is_pos (compareViewDescriptors st b a))
   \<and> (is_neg (compareViewDescriptors st a b) \<and> is_neg (compareViewDescriptors st b c)
        \<longrightarrow> is_neg (compareViewDescriptors st a c))
   \<and> (is_zero (compareViewDescriptors st a b) \<longrightarrow> id_d a = id_d b)
   \<and> is_zero (compareViewDescriptors st a a)
   \<and> (distinct (map id_d xs) \<and> mset ys = mset xs \<and> sorted_cmp (compareViewDescriptors st) ys
        \<longrightarrow> ys = sort_cmp (compareViewDescriptors st) xs)
   \<and> (distinct (map id_d xs) \<and> mset ys = mset xs
        \<longrightarrow> sort_cmp (compareViewDescriptors st) ys = sort_cmp (compareViewDescriptors st) xs)"
proof (intro conjI impI)
  show "is_zero (compareViewDescriptors st a b) \<or> is_neg (compareViewDescriptors st a b)
      \<or> is_pos (compareViewDescriptors st a b)"
    unfolding is_zero_compare is_neg_compare is_pos_compare by auto
  show "is_neg (compareViewDescriptors st a b) \<longleftrightarrow> is_pos (compareViewDescriptors st b a)"
    unfolding is_neg_compare is_pos_compare by simp
  show "is_neg (compareViewDescriptors st a c)"
    if "is_neg (compareViewDescriptors st a b) \<and> is_neg (compareViewDescriptors st b c)"
    using that unfolding is_neg_compare by auto
  show "id_d a = id_d b" if "is_zero (compareViewDescriptors st a b)"
    using that unfolding is_zero_compare by (simp add: order_key_def)
  show "is_zero (compareViewDescriptors st a a)"
    unfolding is_zero_compare by simp
  show "ys = sort_cmp (compareViewDescriptors st) xs"
    if "distinct (map id_d xs) \<and> mset ys = mset xs \<and> sorted_cmp (compareViewDescriptors st) ys"
    using that by (simp add: sort_cmp_unique)
  show "sort_cmp (compareViewDescriptors st) ys = sort_cmp (compareViewDescriptors st) xs"
    if "distinct (map id_d xs) \<and> mset ys = mset xs"
    using that sort_cmp_unique [of xs "sort_cmp (compareViewDescriptors st) ys" st]
    by (simp add: sort_cmp_mset sort_cmp_sorted)
qed

theorem compareViewDescriptors_strict_total_order_witness:
  "is_neg (compareViewDescriptors [] view_y view_x)
   \<and> is_neg (compareViewDescriptors [] view_x view_a)
   \<and> is_neg (compareViewDescriptors [] view_y view_a)
   \<and> is_pos (compareViewDescriptors [] view_x view_y)
   \<and> distinct (map id_d [view_a, view_x, view_y])
   \<and> mset [view_y, view_x, view_a] = mset [view_a, view_x, view_y]
   \<and> sorted_cmp (compareViewDescriptors []) [view_y, view_x, view_a]
   \<and> [view_y, view_x, view_a] = sort_cmp (compareViewDescriptors []) [view_a, view_x, view_y]
   \<and> sort_cmp (compareViewDescriptors []) [view_y, view_x, view_a]
       = sort_cmp (compareViewDescriptors []) [view_a, view_x, view_y]"
proof -
  have n1: "is_neg (compareViewDescriptors [] view_y view_x)"
    and n2: "is_neg (compareViewDescriptors [] view_x view_a)"
    by (simp_all add: compareViewDescriptors_def effectiveOrder_def view_a_def view_x_def view_y_def)
  have d: "distinct (map id_d [view_a, view_x, view_y])"
    by (simp add: view_a_def view_x_def view_y_def)
  have p: "mset [view_y, view_x, view_a] = mset [view_a, view_x, view_y]"
    by simp
  have s: "sorted_cmp (compareViewDescriptors []) [view_y, view_x, view_a]"
    by (simp add: compareViewDescriptors_def effectiveOrder_def view_a_def view_x_def view_y_def)
  note t = compareViewDescriptors_strict_total_order
            [of "[]" view_y view_x view_a "[view_a, view_x, view_y]" "[view_y, view_x, view_a]"]
  have n3: "is_neg (compareViewDescriptors [] view_y view_a)" using t n1 n2 by blast
  have n4: "is_pos (compareViewDescriptors [] view_x view_y)" using t n1 by blast
  have e1: "[view_y, view_x, view_a] = sort_cmp (compareViewDescriptors []) [view_a, view_x, view_y]"
    using t d p s by blast
  have e2: "sort_cmp (compareViewDescriptors []) [view_y, view_x, view_a]
       = sort_cmp (compareViewDescriptors []) [view_a, view_x, view_y]"
    using t d p by blast
  from n1 n2 n3 n4 d p s e1 e2 show ?thesis by blast
qed

section \<open>find\<close>

lemma raw_index_less:
  "ident \<in> set (map id_d vs) \<Longrightarrow> raw_index ident vs < length vs"
  by (induction vs) (auto simp: raw_index_def)

lemma raw_index_id:
  "ident \<in> set (map id_d vs) \<Longrightarrow> id_d (vs ! raw_index ident vs) = ident"
  by (induction vs) (auto simp: raw_index_def)

lemma find_loop_present:
  assumes "list_all (\<lambda>v. map_of st (id_d v) \<noteq> None) vs" and "ident \<in> set (map id_d vs)"
  shows "find_loop st ident vs i vi =
           Inr (i + raw_index ident vs, vi + visible_index st vs (raw_index ident vs),
                vs ! raw_index ident vs, map_of st ident)"
  using assms
proof (induction vs arbitrary: i vi)
  case Nil
  then show ?case by simp
next
  case (Cons v vs)
  show ?case
  proof (cases "id_d v = ident")
    case True
    then show ?thesis by (simp add: raw_index_def visible_index_def)
  next
    case False
    with Cons.prems have p: "list_all (\<lambda>v. map_of st (id_d v) \<noteq> None) vs"
      "ident \<in> set (map id_d vs)" by auto
    from Cons.prems obtain s where s: "map_of st (id_d v) = Some s" by auto
    show ?thesis
      using False s Cons.IH [OF p]
      by (simp add: raw_index_def visible_index_def visible_in_def)
  qed
qed

lemma find_m_present:
  assumes "has_states m" and "ident \<in> set (map id_d (viewDescriptors m))"
  shows "find_m m ident =
           Inr (raw_index ident (viewDescriptors m),
                visible_index (viewStates m) (viewDescriptors m) (raw_index ident (viewDescriptors m)),
                viewDescriptors m ! raw_index ident (viewDescriptors m),
                map_of (viewStates m) ident)"
  using assms find_loop_present [of "viewStates m" "viewDescriptors m" ident 0 0]
  by (simp add: find_m_def has_states_def)

lemma has_state_ident:
  assumes "has_states m" and "ident \<in> set (map id_d (viewDescriptors m))"
  shows "\<exists>s. map_of (viewStates m) ident = Some s"
  using assms by (auto simp: has_states_def list_all_iff)

lemma has_states_update:
  assumes "has_states m"
  shows "has_states (m\<lparr>viewStates := AList.update k s (viewStates m)\<rparr>)"
  using assms by (simp add: has_states_def list_all_iff update_conv')

section \<open>setVisible\<close>

text \<open>
  C3. For an id present in the stored list of a model in which every stored descriptor has a
  state: \<^verbatim>\<open>setVisible(id, visible)\<close> throws "Can't toggle this view's visibility" when the
  descriptor's \<^verbatim>\<open>canToggleVisibility\<close> is false; returns the model unchanged with no event
  when the state already has the value; otherwise sets \<^verbatim>\<open>state.visible\<close> and fires exactly one
  event, an add carrying the visible index, the state's size and collapsed when the view
  becomes visible, a remove carrying the visible index when it becomes hidden. A second call
  with the same value changes nothing and fires nothing, so the two calls fire at most one
  event.
\<close>

theorem setVisible_spec:
  assumes "has_states m" and "ident \<in> set (map id_d (viewDescriptors m))"
  shows "\<exists>s v vi.
     map_of (viewStates m) ident = Some s
     \<and> v = viewDescriptors m ! raw_index ident (viewDescriptors m)
     \<and> vi = visible_index (viewStates m) (viewDescriptors m) (raw_index ident (viewDescriptors m))
     \<and> (\<not> canToggleVisibility v \<longrightarrow> setVisible m ident vis = Inl CantToggleVisibility)
     \<and> (canToggleVisibility v \<and> visible s = vis \<longrightarrow> setVisible m ident vis = Inr (m, []))
     \<and> (canToggleVisibility v \<and> visible s \<noteq> vis \<longrightarrow>
          setVisible m ident vis =
            Inr (m\<lparr>viewStates := AList.update ident (s\<lparr>visible := vis\<rparr>) (viewStates m)\<rparr>,
                 [if vis then DidAdd vi v (size_s s) (collapsed s) else DidRemove vi v]))
     \<and> (\<forall>m1 e1. setVisible m ident vis = Inr (m1, e1) \<longrightarrow>
          length e1 \<le> 1 \<and> setVisible m1 ident vis = Inr (m1, []))"
proof -
  let ?k = "raw_index ident (viewDescriptors m)"
  let ?v = "viewDescriptors m ! ?k"
  let ?vi = "visible_index (viewStates m) (viewDescriptors m) ?k"
  from assms obtain s where s: "map_of (viewStates m) ident = Some s"
    using has_state_ident by blast
  have idv: "id_d ?v = ident" using assms(2) by (rule raw_index_id)
  have f: "find_m m ident = Inr (?k, ?vi, ?v, Some s)"
    using find_m_present [OF assms] s by simp
  have c1: "setVisible m ident vis = Inl CantToggleVisibility" if "\<not> canToggleVisibility ?v"
    using that f by (simp add: setVisible_def)
  have c2: "setVisible m ident vis = Inr (m, [])" if "canToggleVisibility ?v" "visible s = vis"
    using that f by (simp add: setVisible_def)
  let ?m' = "m\<lparr>viewStates := AList.update ident (s\<lparr>visible := vis\<rparr>) (viewStates m)\<rparr>"
  have c3: "setVisible m ident vis =
      Inr (?m', [if vis then DidAdd ?vi ?v (size_s s) (collapsed s) else DidRemove ?vi ?v])"
    if "canToggleVisibility ?v" "visible s \<noteq> vis"
    using that f idv by (simp add: setVisible_def Let_def)
  have again': "setVisible ?m' ident vis = Inr (?m', [])" if "canToggleVisibility ?v"
  proof -
    have hs: "has_states ?m'" using assms(1) by (rule has_states_update)
    have pr: "ident \<in> set (map id_d (viewDescriptors ?m'))" using assms(2) by simp
    have "find_m ?m' ident =
        Inr (?k, visible_index (viewStates ?m') (viewDescriptors m) ?k, ?v, Some (s\<lparr>visible := vis\<rparr>))"
      using find_m_present [OF hs pr] by (simp add: update_conv')
    then show ?thesis using that by (simp add: setVisible_def)
  qed
  have again: "length e1 \<le> 1 \<and> setVisible m1 ident vis = Inr (m1, [])"
    if r: "setVisible m ident vis = Inr (m1, e1)" for m1 e1
  proof (cases "canToggleVisibility ?v")
    case False
    then show ?thesis using c1 r by simp
  next
    case True
    show ?thesis
    proof (cases "visible s = vis")
      case True
      with \<open>canToggleVisibility ?v\<close> c2 r show ?thesis by simp
    next
      case False
      with \<open>canToggleVisibility ?v\<close> c3 r have "m1 = ?m'" "length e1 = 1" by simp_all
      then show ?thesis using again' \<open>canToggleVisibility ?v\<close> by simp
    qed
  qed
  from s c1 c2 c3 again show ?thesis by blast
qed

theorem setVisible_spec_witness:
  "has_states model_ab \<and> ''b'' \<in> set (map id_d (viewDescriptors model_ab))
   \<and> setVisible model_ab ''b'' False =
       Inr (model_ab\<lparr>viewStates := [(''a'', hidden), (''b'', defaultState\<lparr>visible := False\<rparr>)]\<rparr>,
            [DidRemove 0 view_b])
   \<and> setVisible (model_ab\<lparr>viewStates := [(''a'', hidden), (''b'', defaultState\<lparr>visible := False\<rparr>)]\<rparr>)
        ''b'' False =
       Inr (model_ab\<lparr>viewStates := [(''a'', hidden), (''b'', defaultState\<lparr>visible := False\<rparr>)]\<rparr>, [])"
proof -
  have h: "has_states model_ab"
    by (simp add: has_states_def model_ab_def view_a_def view_b_def)
  have p: "''b'' \<in> set (map id_d (viewDescriptors model_ab))"
    by (simp add: model_ab_def view_a_def view_b_def)
  have e: "setVisible model_ab ''b'' False =
       Inr (model_ab\<lparr>viewStates := [(''a'', hidden), (''b'', defaultState\<lparr>visible := False\<rparr>)]\<rparr>,
            [DidRemove 0 view_b])"
    by (simp add: setVisible_def find_m_def model_ab_def view_a_def view_b_def hidden_def defaultState_def)
  show ?thesis
    using setVisible_spec [OF h p, of False] h p e by blast
qed

section \<open>State creation\<close>

lemma map_of_createStates:
  "map_of (createStates vs st) k =
     (case map_of st k of
        Some s \<Rightarrow> Some s
      | None \<Rightarrow> if k \<in> set (map id_d vs) then Some defaultState else None)"
proof (induction vs arbitrary: st)
  case Nil
  then show ?case by (simp split: option.splits)
next
  case (Cons v vs)
  show ?case
    by (simp add: Cons.IH update_conv' split: option.splits)
qed

lemma effectiveOrder_createStates:
  "effectiveOrder (createStates vs st) a = effectiveOrder st a"
  by (simp add: effectiveOrder_def map_of_createStates defaultState_def split: option.splits)

lemma compare_createStates:
  "compareViewDescriptors (createStates vs st) = compareViewDescriptors st"
  by (intro ext) (simp add: compareViewDescriptors_def effectiveOrder_createStates)

lemma createStates_has:
  "list_all (\<lambda>v. map_of (createStates vs st) (id_d v) \<noteq> None) vs"
  by (simp add: list_all_iff map_of_createStates split: option.splits)

lemma createStates_keeps:
  "map_of st k \<noteq> None \<Longrightarrow> map_of (createStates vs st) k = map_of st k"
  by (auto simp: map_of_createStates split: option.splits)

lemma createStates_same:
  "list_all (\<lambda>v. map_of st (id_d v) \<noteq> None) vs \<Longrightarrow> createStates vs st = st"
  by (induction vs arbitrary: st) auto

section \<open>The splices of sortedDiff\<close>

lemma pushSplice_ok:
  assumes "list_all (splice_ok n A) result" and "st + dc \<le> n" and "set ins \<subseteq> A"
  shows "list_all (splice_ok n A) (pushSplice st dc ins result)"
proof (cases "result = []")
  case True
  then show ?thesis using assms by (simp add: pushSplice_def splice_ok_def)
next
  case False
  then have "list_all (splice_ok n A) (butlast result @ [last result])"
    using assms(1) by simp
  then have "list_all (splice_ok n A) (butlast result)" "splice_ok n A (last result)"
    unfolding list_all_append by simp_all
  then show ?thesis using assms by (auto simp: pushSplice_def splice_ok_def)
qed

lemma sortedDiff_loop_ok:
  assumes "list_all (splice_ok n A) result" and "i + length bs = n" and "set as \<subseteq> A"
  shows "list_all (splice_ok n A) (sortedDiff_loop cmp bs as i result)"
  using assms
proof (induction cmp bs as i result rule: sortedDiff_loop.induct)
  case (1 compare after beforeIdx result)
  then show ?case by (simp add: pushSplice_ok)
next
  case (2 compare b bs beforeIdx result)
  then show ?case by (simp add: pushSplice_ok)
next
  case (3 compare b bs a as beforeIdx result)
  have p1: "list_all (splice_ok n A) (pushSplice beforeIdx 1 [] result)"
    using "3.prems" by (intro pushSplice_ok) simp_all
  have p2: "list_all (splice_ok n A) (pushSplice beforeIdx 0 [a] result)"
    using "3.prems" by (intro pushSplice_ok) simp_all
  show ?case
    using "3.IH" "3.prems" p1 p2 by (simp add: Let_def)
qed

lemma sortedDiff_ok:
  "list_all (splice_ok (length before) (set after)) (sortedDiff before after cmp)"
  unfolding sortedDiff_def by (rule sortedDiff_loop_ok) simp_all

lemma sortedDiff_loop_same:
  assumes "\<And>x. is_zero (cmp x x)"
  shows "sortedDiff_loop cmp xs xs i result = result"
  using assms by (induction xs arbitrary: i) (simp_all add: pushSplice_def)

lemma sortedDiff_same:
  "(\<And>x. is_zero (cmp x x)) \<Longrightarrow> sortedDiff xs xs cmp = []"
  by (simp add: sortedDiff_def sortedDiff_loop_same)

section \<open>The reconcile pass returns\<close>

lemma find_m_in_list:
  assumes "has_states m" and "k < length (viewDescriptors m)"
  shows "find_m m (id_d (viewDescriptors m ! k)) =
           Inr (raw_index (id_d (viewDescriptors m ! k)) (viewDescriptors m),
                visible_index (viewStates m) (viewDescriptors m)
                  (raw_index (id_d (viewDescriptors m ! k)) (viewDescriptors m)),
                viewDescriptors m ! raw_index (id_d (viewDescriptors m ! k)) (viewDescriptors m),
                map_of (viewStates m) (id_d (viewDescriptors m ! k)))"
  using assms by (intro find_m_present) auto

lemma has_states_nth:
  assumes "has_states m" and "k < length (viewDescriptors m)"
  shows "\<exists>s. map_of (viewStates m) (id_d (viewDescriptors m ! k)) = Some s"
  using assms by (auto simp: has_states_def list_all_length)

lemma removeEvents_returns:
  assumes "has_states m" and "k + n \<le> length (viewDescriptors m)"
  shows "\<exists>evs. removeEvents m startIndex k n = Inr evs"
  using assms
proof (induction n arbitrary: k)
  case 0
  then show ?case by simp
next
  case (Suc n)
  then have k: "k < length (viewDescriptors m)" by simp
  from Suc.prems obtain s where s: "map_of (viewStates m) (id_d (viewDescriptors m ! k)) = Some s"
    using has_states_nth k by blast
  from Suc obtain evs where evs: "removeEvents m startIndex (k + 1) n = Inr evs"
    by fastforce
  show ?case
    using k s evs find_m_in_list [OF Suc.prems(1) k]
    by (simp add: js_index_def)
qed

lemma addEvents_returns:
  assumes "list_all (\<lambda>v. map_of st (id_d v) \<noteq> None) vds"
  shows "\<exists>evs. addEvents st startIndex vds = Inr evs"
  using assms
proof (induction vds arbitrary: startIndex)
  case Nil
  then show ?case by simp
next
  case (Cons v vds)
  then obtain s where s: "map_of st (id_d v) = Some s" by auto
  from Cons obtain e1 where e1: "addEvents st (startIndex + 1) vds = Inr e1" by fastforce
  from Cons obtain e2 where e2: "addEvents st startIndex vds = Inr e2" by fastforce
  show ?case using s e1 e2 by simp
qed

lemma spliceEvents_returns:
  assumes "has_states m" and "splice_ok (length (viewDescriptors m)) A sp"
    and "\<And>v. v \<in> A \<Longrightarrow> map_of (viewStates m) (id_d v) \<noteq> None"
  shows "\<exists>evs. spliceEvents m sp = Inr evs"
proof -
  have "\<exists>si. (case js_index (viewDescriptors m) (int (start sp)) of
              None \<Rightarrow> Inr (length (viewDescriptors m))
            | Some startViewDescriptor \<Rightarrow>
                (case find_m m (id_d startViewDescriptor) of
                   Inl e \<Rightarrow> Inl e
                 | Inr (index, visibleIndex, vd, state) \<Rightarrow> Inr visibleIndex)) = (Inr si :: error + nat)"
  proof (cases "start sp < length (viewDescriptors m)")
    case True
    then show ?thesis using find_m_in_list [OF assms(1) True] by (simp add: js_index_def)
  next
    case False
    then show ?thesis by (simp add: js_index_def)
  qed
  then obtain si where si: "(case js_index (viewDescriptors m) (int (start sp)) of
              None \<Rightarrow> Inr (length (viewDescriptors m))
            | Some startViewDescriptor \<Rightarrow>
                (case find_m m (id_d startViewDescriptor) of
                   Inl e \<Rightarrow> Inl e
                 | Inr (index, visibleIndex, vd, state) \<Rightarrow> Inr visibleIndex)) = (Inr si :: error + nat)"
    by blast
  have "start sp + deleteCount sp \<le> length (viewDescriptors m)"
    using assms(2) by (simp add: splice_ok_def)
  then obtain rs where rs: "removeEvents m si (start sp) (deleteCount sp) = Inr rs"
    using removeEvents_returns [OF assms(1), of "start sp" "deleteCount sp" si] by blast
  have "list_all (\<lambda>v. map_of (viewStates m) (id_d v) \<noteq> None) (toInsert sp)"
    using assms(2,3) by (auto simp: splice_ok_def list_all_iff)
  then obtain as where as: "addEvents (viewStates m) si (toInsert sp) = Inr as"
    using addEvents_returns by blast
  show ?thesis unfolding spliceEvents_def using si rs as by simp
qed

lemma splicesEvents_returns:
  assumes "has_states m" and "list_all (splice_ok (length (viewDescriptors m)) A) sps"
    and "\<And>v. v \<in> A \<Longrightarrow> map_of (viewStates m) (id_d v) \<noteq> None"
  shows "\<exists>evs. splicesEvents m sps = Inr evs"
  using assms(2)
proof (induction sps)
  case Nil
  then show ?case by simp
next
  case (Cons sp sps)
  then obtain e1 where e1: "spliceEvents m sp = Inr e1"
    using spliceEvents_returns [OF assms(1) _ assms(3)] by fastforce
  from Cons obtain e2 where e2: "splicesEvents m sps = Inr e2" by fastforce
  show ?case using e1 e2 by simp
qed

lemma has_states_createStates:
  assumes "has_states m"
  shows "has_states (m\<lparr>viewStates := createStates vs (viewStates m)\<rparr>)"
  using assms by (simp add: has_states_def list_all_iff createStates_keeps)

lemma reconcile_returns:
  assumes "has_states m"
  shows "\<exists>evs. onDidChangeViewDescriptors m incoming =
     Inr (\<lparr>viewDescriptors = sort_cmp (compareViewDescriptors (viewStates m)) incoming,
           viewStates = createStates (sort_cmp (compareViewDescriptors (viewStates m)) incoming)
                          (viewStates m)\<rparr>, evs)"
proof -
  let ?sorted = "sort_cmp (compareViewDescriptors (viewStates m)) incoming"
  let ?m1 = "m\<lparr>viewStates := createStates ?sorted (viewStates m)\<rparr>"
  let ?sps = "rev (sortedDiff (viewDescriptors ?m1) ?sorted (compareViewDescriptors (viewStates ?m1)))"
  have h: "has_states ?m1" using assms by (rule has_states_createStates)
  have ok: "list_all (splice_ok (length (viewDescriptors ?m1)) (set ?sorted)) ?sps"
    using sortedDiff_ok [of "viewDescriptors ?m1" ?sorted] by simp
  have st: "map_of (viewStates ?m1) (id_d v) \<noteq> None" if "v \<in> set ?sorted" for v
    using that createStates_has [of ?sorted "viewStates m"] by (simp add: list_all_iff)
  obtain evs where "splicesEvents ?m1 ?sps = Inr evs"
    using splicesEvents_returns [OF h ok st] by blast
  then show ?thesis
    by (simp add: onDidChangeViewDescriptors_def Let_def)
qed

section \<open>Reconcile twice\<close>

lemma reconcile_result:
  assumes "onDidChangeViewDescriptors m incoming = Inr (m1, evs)"
  shows "m1 = m\<lparr>viewDescriptors := sort_cmp (compareViewDescriptors (viewStates m)) incoming,
                 viewStates := createStates (sort_cmp (compareViewDescriptors (viewStates m)) incoming)
                          (viewStates m)\<rparr>"
  using assms by (auto simp: onDidChangeViewDescriptors_def Let_def split: sum.splits)

lemma reconcile_again:
  assumes "onDidChangeViewDescriptors m incoming = Inr (m1, evs)"
  shows "onDidChangeViewDescriptors m1 incoming = Inr (m1, [])"
proof -
  let ?sorted = "sort_cmp (compareViewDescriptors (viewStates m)) incoming"
  let ?st = "createStates ?sorted (viewStates m)"
  have m1: "m1 = m\<lparr>viewDescriptors := ?sorted, viewStates := ?st\<rparr>"
    using assms by (rule reconcile_result)
  have s2: "sort_cmp (compareViewDescriptors ?st) incoming = ?sorted"
    by (simp add: compare_createStates)
  have c2: "createStates ?sorted ?st = ?st"
    by (intro createStates_same createStates_has)
  have d2: "sortedDiff ?sorted ?sorted (compareViewDescriptors ?st) = []"
    by (intro sortedDiff_same) (simp add: is_zero_compare)
  show ?thesis
    unfolding onDidChangeViewDescriptors_def Let_def m1
    by (simp add: s2 c2 d2)
qed

text \<open>
  C4. A reconcile pass that has returned, run again on the resulting model with the same
  active descriptors, fires no event at all and returns the model as it is: the stored
  ordered list and the states are the same. In a model in which every stored descriptor has
  a state the first pass does return.
\<close>

theorem reconcile_idempotent:
  "(onDidChangeViewDescriptors m incoming = Inr (m1, evs) \<longrightarrow>
      onDidChangeViewDescriptors m1 incoming = Inr (m1, []))
   \<and> (has_states m \<longrightarrow> (\<exists>m' evs'. onDidChangeViewDescriptors m incoming = Inr (m', evs')))"
  using reconcile_again [of m incoming m1 evs] reconcile_returns [of m incoming] by blast

theorem reconcile_idempotent_witness:
  "has_states model_ab
   \<and> onDidChangeViewDescriptors model_ab [view_b, view_x, view_a] = Inr (model_ab_x, [DidAdd 0 view_x None False])
   \<and> onDidChangeViewDescriptors model_ab_x [view_b, view_x, view_a] = Inr (model_ab_x, [])"
proof -
  have h: "has_states model_ab"
    by (simp add: has_states_def model_ab_def view_a_def view_b_def)
  have e: "onDidChangeViewDescriptors model_ab [view_b, view_x, view_a] = Inr (model_ab_x, [DidAdd 0 view_x None False])"
    by (simp add: onDidChangeViewDescriptors_def Let_def model_ab_def model_ab_x_def sort_cmp_def
        compareViewDescriptors_def effectiveOrder_def view_a_def view_b_def view_x_def hidden_def
        defaultState_def sortedDiff_def pushSplice_def spliceEvents_def js_index_def find_m_def)
  show ?thesis
    using reconcile_idempotent [of model_ab "[view_b, view_x, view_a]" model_ab_x "[DidAdd 0 view_x None False]"] h e
    by blast
qed

section \<open>The invariant\<close>

lemma find_loop_absent:
  assumes "list_all (\<lambda>v. map_of st (id_d v) \<noteq> None) vs" and "ident \<notin> set (map id_d vs)"
  shows "find_loop st ident vs i vi = Inl (ViewDescriptorNotFound ident)"
  using assms by (induction vs arbitrary: i vi) auto

lemma find_m_no_TypeError:
  assumes "has_states m"
  shows "find_m m ident \<noteq> Inl TypeError"
proof (cases "ident \<in> set (map id_d (viewDescriptors m))")
  case True
  then show ?thesis using find_m_present [OF assms True] by simp
next
  case False
  then show ?thesis
    using assms find_loop_absent [of "viewStates m" "viewDescriptors m" ident 0 0]
    by (simp add: find_m_def has_states_def)
qed

lemma visible_filter_returns:
  assumes "list_all (\<lambda>v. map_of st (id_d v) \<noteq> None) vs"
  shows "visible_filter st vs = Inr (filter (visible_in st) vs)"
  using assms by (induction vs) (auto simp: visible_in_def)

lemma renumber_dom:
  assumes "renumber vs i st = Inr st'"
  shows "(map_of st' k \<noteq> None) = (map_of st k \<noteq> None)"
  using assms
proof (induction vs arbitrary: i st)
  case Nil
  then show ?case by simp
next
  case (Cons v vs)
  then obtain s where s: "map_of st (id_d v) = Some s" by (auto split: option.splits)
  with Cons.prems have "renumber vs (i + 1) (AList.update (id_d v) (s\<lparr>order := Some (int i)\<rparr>) st) = Inr st'"
    by simp
  from Cons.IH [OF this] s show ?case by (auto simp: update_conv')
qed

lemma renumber_has:
  assumes "renumber vs i st = Inr st'"
  shows "list_all (\<lambda>v. map_of st (id_d v) \<noteq> None) vs"
  using assms
proof (induction vs arbitrary: i st)
  case Nil
  then show ?case by simp
next
  case (Cons v vs)
  then obtain s where s: "map_of st (id_d v) = Some s" by (auto split: option.splits)
  with Cons.prems have r: "renumber vs (i + 1) (AList.update (id_d v) (s\<lparr>order := Some (int i)\<rparr>) st) = Inr st'"
    by simp
  from Cons.IH [OF r] s have "list_all (\<lambda>w. map_of st (id_d w) \<noteq> None) vs"
    by (auto simp: list_all_iff update_conv' split: if_splits)
  with s show ?case by simp
qed

lemma perform_preserves:
  assumes "has_states m" and "perform m opn = Inr (m', evs)"
  shows "has_states m'"
proof (cases opn)
  case (Reconcile descs)
  with assms(2) have "m' = m\<lparr>viewDescriptors := sort_cmp (compareViewDescriptors (viewStates m)) descs,
                 viewStates := createStates (sort_cmp (compareViewDescriptors (viewStates m)) descs)
                          (viewStates m)\<rparr>"
    using reconcile_result by simp
  then show ?thesis
    using createStates_has [of "sort_cmp (compareViewDescriptors (viewStates m)) descs" "viewStates m"]
    by (simp add: has_states_def)
next
  case (SetVisible ident vis)
  with assms show ?thesis
    by (auto simp: setVisible_def Let_def has_states_update split: sum.splits option.splits if_splits)
next
  case (SetCollapsed ident c)
  with assms show ?thesis
    by (auto simp: setCollapsed_def has_states_update split: sum.splits option.splits)
next
  case (SetSize ident n)
  with assms show ?thesis
    by (auto simp: setSize_def has_states_update split: sum.splits option.splits)
next
  case (Move fromId toId)
  with assms(2) obtain vds st where r: "renumber vds 0 (viewStates m) = Inr st"
    and m': "m' = m\<lparr>viewDescriptors := vds, viewStates := st\<rparr>"
    by (auto simp: move_def Let_def split: option.splits sum.splits)
  have "list_all (\<lambda>v. map_of st (id_d v) \<noteq> None) vds"
    using renumber_has [OF r] renumber_dom [OF r] by (simp add: list_all_iff)
  then show ?thesis using m' by (simp add: has_states_def)
qed

text \<open>
  C10. Every descriptor of the stored list has a state in the map: this holds of the
  instance the constructor returns (and the constructor does return), and every reconcile
  pass and every public mutator that returns keeps it. Under it the getter
  \<^verbatim>\<open>visibleViewDescriptors\<close> and \<^verbatim>\<open>find\<close> never read a property of a missing state, and a
  reconcile pass always returns.
\<close>

theorem states_invariant:
  "(\<exists>m evs. newContributableViewsModel states descs = Inr (m, evs) \<and> has_states m)
   \<and> (has_states m \<and> perform m opn = Inr (m', evs') \<longrightarrow> has_states m')
   \<and> (has_states m \<longrightarrow>
        visibleViewDescriptors m = Inr (filter (visible_in (viewStates m)) (viewDescriptors m))
        \<and> find_m m ident \<noteq> Inl TypeError
        \<and> (\<exists>m2 evs2. perform m (Reconcile incoming) = Inr (m2, evs2)))"
proof (intro conjI impI)
  let ?m0 = "\<lparr>viewDescriptors = [], viewStates = states\<rparr>"
  have h0: "has_states ?m0" by (simp add: has_states_def)
  obtain evs where e: "newContributableViewsModel states descs =
     Inr (\<lparr>viewDescriptors = sort_cmp (compareViewDescriptors (viewStates ?m0)) descs,
           viewStates = createStates (sort_cmp (compareViewDescriptors (viewStates ?m0)) descs)
                          (viewStates ?m0)\<rparr>, evs)"
    using reconcile_returns [OF h0, of descs] unfolding newContributableViewsModel_def by blast
  have "has_states \<lparr>viewDescriptors = sort_cmp (compareViewDescriptors (viewStates ?m0)) descs,
           viewStates = createStates (sort_cmp (compareViewDescriptors (viewStates ?m0)) descs)
                          (viewStates ?m0)\<rparr>"
    using createStates_has [of "sort_cmp (compareViewDescriptors states) descs" states]
    by (simp add: has_states_def)
  with e show "\<exists>m evs. newContributableViewsModel states descs = Inr (m, evs) \<and> has_states m"
    by blast
  show "has_states m'" if "has_states m \<and> perform m opn = Inr (m', evs')"
    using that perform_preserves by blast
  show "visibleViewDescriptors m = Inr (filter (visible_in (viewStates m)) (viewDescriptors m))"
    if "has_states m"
    using that by (simp add: visibleViewDescriptors_def has_states_def visible_filter_returns)
  show "find_m m ident \<noteq> Inl TypeError" if "has_states m"
    using that by (rule find_m_no_TypeError)
  show "\<exists>m2 evs2. perform m (Reconcile incoming) = Inr (m2, evs2)" if "has_states m"
    using reconcile_returns [OF that, of incoming] by auto
qed

theorem states_invariant_witness:
  "has_states model_ab
   \<and> perform model_ab (Move ''b'' ''a'') =
       Inr (\<lparr>viewDescriptors = [view_b, view_a],
             viewStates = [(''a'', hidden\<lparr>order := Some 1\<rparr>), (''b'', defaultState\<lparr>order := Some 0\<rparr>)]\<rparr>,
            [DidMove 1 (Some view_b) 0 (Some view_a)])
   \<and> has_states \<lparr>viewDescriptors = [view_b, view_a],
             viewStates = [(''a'', hidden\<lparr>order := Some 1\<rparr>), (''b'', defaultState\<lparr>order := Some 0\<rparr>)]\<rparr>
   \<and> visibleViewDescriptors model_ab = Inr [view_b]
   \<and> find_m model_ab ''zz'' \<noteq> Inl TypeError"
proof -
  have h: "has_states model_ab"
    by (simp add: has_states_def model_ab_def view_a_def view_b_def)
  have e: "perform model_ab (Move ''b'' ''a'') =
       Inr (\<lparr>viewDescriptors = [view_b, view_a],
             viewStates = [(''a'', hidden\<lparr>order := Some 1\<rparr>), (''b'', defaultState\<lparr>order := Some 0\<rparr>)]\<rparr>,
            [DidMove 1 (Some view_b) 0 (Some view_a)])"
    by (simp add: move_def Let_def model_ab_def firstIndex_def js_index_def arrays_move_def
        js_splice_def view_a_def view_b_def hidden_def defaultState_def)
  have v: "filter (visible_in (viewStates model_ab)) (viewDescriptors model_ab) = [view_b]"
    by (simp add: visible_in_def model_ab_def view_a_def view_b_def hidden_def defaultState_def)
  show ?thesis
    using states_invariant [of "[]" "[]" model_ab "Move ''b'' ''a''" _ _ "''zz''" "[]"] h e v
    by auto
qed

section \<open>move\<close>

lemma firstIndex_from_present:
  "ident \<in> set (map id_d vs) \<Longrightarrow>
     firstIndex_from (\<lambda>v. id_d v = ident) vs i = i + int (raw_index ident vs)"
  by (induction vs arbitrary: i) (auto simp: raw_index_def)

lemma firstIndex_present:
  "ident \<in> set (map id_d vs) \<Longrightarrow> firstIndex vs (\<lambda>v. id_d v = ident) = int (raw_index ident vs)"
  by (simp add: firstIndex_def firstIndex_from_present)

lemma js_index_nth: "k < length vs \<Longrightarrow> js_index vs (int k) = Some (vs ! k)"
  by (simp add: js_index_def)

lemma arrays_move_nth:
  assumes "i < length vs" and "j < length vs"
  shows "arrays_move vs (int i) (int j) = Some (moved_list vs i j)"
proof -
  have d: "drop i vs = vs ! i # drop (Suc i) vs"
    using assms(1) by (simp add: Cons_nth_drop_Suc)
  have s1: "js_splice vs (int i) 1 [] = ([vs ! i], take i vs @ drop (Suc i) vs)"
    using assms(1) by (simp add: js_splice_def Let_def d nat_add_distrib)
  have len: "length (take i vs @ drop (Suc i) vs) = length vs - 1"
    using assms(1) by simp
  have s2: "snd (js_splice (take i vs @ drop (Suc i) vs) (int j) 0 [vs ! i]) = moved_list vs i j"
    using assms unfolding js_splice_def Let_def moved_list_def len
    by (simp add: min_def)
  show ?thesis unfolding arrays_move_def s1 using s2 by simp
qed

lemma renumber_spec:
  assumes "list_all (\<lambda>v. map_of st (id_d v) \<noteq> None) vs" and "distinct (map id_d vs)"
  shows "\<exists>st'. renumber vs i st = Inr st' \<and>
           (\<forall>ident. map_of st' ident =
              (if ident \<in> set (map id_d vs)
               then map_option (\<lambda>s. s\<lparr>order := Some (int (i + raw_index ident vs))\<rparr>) (map_of st ident)
               else map_of st ident))"
  using assms
proof (induction vs arbitrary: i st)
  case Nil
  then show ?case by simp
next
  case (Cons v vs)
  from Cons.prems obtain s where s: "map_of st (id_d v) = Some s" by auto
  let ?st1 = "AList.update (id_d v) (s\<lparr>order := Some (int i)\<rparr>) st"
  have h1: "list_all (\<lambda>w. map_of ?st1 (id_d w) \<noteq> None) vs"
    using Cons.prems(1) by (auto simp: list_all_iff update_conv')
  have d1: "distinct (map id_d vs)" using Cons.prems(2) by simp
  from Cons.IH [OF h1 d1, of "i + 1"] obtain st' where
    r: "renumber vs (i + 1) ?st1 = Inr st'" and
    m: "\<And>ident. map_of st' ident =
              (if ident \<in> set (map id_d vs)
               then map_option (\<lambda>s. s\<lparr>order := Some (int (i + 1 + raw_index ident vs))\<rparr>) (map_of ?st1 ident)
               else map_of ?st1 ident)"
    by blast
  have nv: "id_d v \<notin> set (map id_d vs)" using Cons.prems(2) by simp
  have "map_of st' ident =
              (if ident \<in> set (map id_d (v # vs))
               then map_option (\<lambda>s. s\<lparr>order := Some (int (i + raw_index ident (v # vs)))\<rparr>) (map_of st ident)
               else map_of st ident)" for ident
  proof (cases "ident = id_d v")
    case True
    then show ?thesis using m [of ident] nv s by (simp add: update_conv' raw_index_def)
  next
    case False
    then show ?thesis using m [of ident] by (auto simp: update_conv' raw_index_def)
  qed
  then show ?case using r s by simp
qed

lemma moved_list_mset:
  assumes "i < length vs"
  shows "mset (moved_list vs i j) = mset vs"
proof -
  let ?R = "take i vs @ drop (Suc i) vs"
  have "mset (moved_list vs i j) = mset (take j ?R @ drop j ?R) + {#vs ! i#}"
    unfolding moved_list_def by simp
  also have "\<dots> = mset ?R + {#vs ! i#}" by (simp only: append_take_drop_id)
  also have "\<dots> = mset (take i vs @ vs ! i # drop (Suc i) vs)" by simp
  also have "\<dots> = mset vs" using assms by (simp only: id_take_nth_drop [symmetric])
  finally show ?thesis .
qed

lemma moved_list_nth:
  assumes "i < length vs" and "j < length vs"
  shows "moved_list vs i j ! j = vs ! i"
proof -
  have "length (take j (take i vs @ drop (Suc i) vs)) = j" using assms by auto
  then show ?thesis unfolding moved_list_def by (metis nth_append_length append_Cons)
qed

lemma move_present:
  assumes "has_states m" and "distinct (map id_d (viewDescriptors m))"
    and "fromId \<in> set (map id_d (viewDescriptors m))"
    and "toId \<in> set (map id_d (viewDescriptors m))"
  shows "\<exists>st'. move m fromId toId =
            Inr (m\<lparr>viewDescriptors :=
                      moved_list (viewDescriptors m) (raw_index fromId (viewDescriptors m))
                        (raw_index toId (viewDescriptors m)),
                    viewStates := st'\<rparr>,
                 [DidMove (int (raw_index fromId (viewDescriptors m)))
                    (Some (viewDescriptors m ! raw_index fromId (viewDescriptors m)))
                    (int (raw_index toId (viewDescriptors m)))
                    (Some (viewDescriptors m ! raw_index toId (viewDescriptors m)))])
          \<and> (\<forall>ident. map_of st' ident =
                (if ident \<in> set (map id_d (viewDescriptors m))
                 then map_option
                        (\<lambda>s. s\<lparr>order := Some (int (raw_index ident
                                  (moved_list (viewDescriptors m) (raw_index fromId (viewDescriptors m))
                                     (raw_index toId (viewDescriptors m)))))\<rparr>)
                        (map_of (viewStates m) ident)
                 else map_of (viewStates m) ident))"
proof -
  let ?vs = "viewDescriptors m"
  let ?i = "raw_index fromId ?vs"
  let ?j = "raw_index toId ?vs"
  let ?mv = "moved_list ?vs ?i ?j"
  have i: "?i < length ?vs" and j: "?j < length ?vs"
    using assms(3,4) by (simp_all only: raw_index_less)
  have ms: "mset ?mv = mset ?vs" using i by (rule moved_list_mset)
  then have "mset (map id_d ?mv) = mset (map id_d ?vs)" by simp
  then have dist: "distinct (map id_d ?mv)"
    using assms(2) mset_eq_imp_distinct_iff by blast
  have set_eq: "set ?mv = set ?vs" using ms by (rule mset_eq_setD)
  have has: "list_all (\<lambda>v. map_of (viewStates m) (id_d v) \<noteq> None) ?mv"
    using assms(1) set_eq by (simp add: has_states_def list_all_iff)
  from renumber_spec [OF has dist, of 0] obtain st' where
    r: "renumber ?mv 0 (viewStates m) = Inr st'" and
    sp: "\<forall>ident. map_of st' ident =
              (if ident \<in> set (map id_d ?mv)
               then map_option (\<lambda>s. s\<lparr>order := Some (int (0 + raw_index ident ?mv))\<rparr>) (map_of (viewStates m) ident)
               else map_of (viewStates m) ident)"
    by blast
  have mv: "move m fromId toId =
      Inr (m\<lparr>viewDescriptors := ?mv, viewStates := st'\<rparr>,
        [DidMove (int ?i) (Some (?vs ! ?i)) (int ?j) (Some (?vs ! ?j))])"
    unfolding move_def Let_def
    using assms(3,4) i j r
    by (simp add: firstIndex_present js_index_nth arrays_move_nth)
  show ?thesis using mv sp set_eq by auto
qed

lemma raw_index_append:
  "ident \<notin> set (map id_d P) \<Longrightarrow> raw_index ident (P @ R) = length P + raw_index ident R"
  by (induction P) (auto simp: raw_index_def)

lemma raw_index_nth_distinct:
  assumes "distinct (map id_d vs)" and "k < length vs"
  shows "raw_index (id_d (vs ! k)) vs = k"
proof -
  have vs: "vs = take k vs @ vs ! k # drop (Suc k) vs"
    using assms(2) by (rule id_take_nth_drop)
  have "distinct (map id_d (take k vs @ vs ! k # drop (Suc k) vs))"
    using assms(1) vs by simp
  then have "id_d (vs ! k) \<notin> set (map id_d (take k vs))" by auto
  then have "raw_index (id_d (vs ! k)) (take k vs @ vs ! k # drop (Suc k) vs) = k"
    using assms(2) by (simp add: raw_index_append) (simp add: raw_index_def)
  then show ?thesis using vs by simp
qed

lemma moved_list_forward: "moved_list (P @ [a, b] @ S) (length P) (Suc (length P)) = P @ [b, a] @ S"
  by (simp add: moved_list_def)

lemma moved_list_backward: "moved_list (P @ [b, a] @ S) (Suc (length P)) (length P) = P @ [a, b] @ S"
  by (simp add: moved_list_def nth_append)

lemma adjacent_split:
  assumes "Suc i < length vs"
  shows "vs = take i vs @ [vs ! i, vs ! Suc i] @ drop (Suc (Suc i)) vs"
proof -
  have "vs = take i vs @ vs ! i # drop (Suc i) vs"
    using assms by (intro id_take_nth_drop) simp
  moreover have "drop (Suc i) vs = vs ! Suc i # drop (Suc (Suc i)) vs"
    using assms by (simp add: Cons_nth_drop_Suc)
  ultimately show ?thesis by simp
qed

text \<open>Moving a descriptor onto a neighbour and the neighbour back restores the list.\<close>

lemma moved_list_there_and_back:
  assumes "distinct (map id_d vs)" and "i < length vs" and "j < length vs"
    and "j = Suc i \<or> i = Suc j"
  shows "raw_index (id_d (vs ! j)) (moved_list vs i j) = i"
    and "raw_index (id_d (vs ! i)) (moved_list vs i j) = j"
    and "moved_list (moved_list vs i j) i j = vs"
proof -
  let ?mv = "moved_list vs i j"
  have ms: "mset ?mv = mset vs" using assms(2) by (rule moved_list_mset)
  then have "mset (map id_d ?mv) = mset (map id_d vs)" by simp
  then have dist: "distinct (map id_d ?mv)"
    using assms(1) mset_eq_imp_distinct_iff by blast
  have len: "length ?mv = length vs" using ms by (metis size_mset)
  have swap: "?mv ! i = vs ! j \<and> ?mv ! j = vs ! i \<and> moved_list ?mv i j = vs"
  proof (cases "j = Suc i")
    case True
    let ?P = "take i vs" and ?S = "drop (Suc (Suc i)) vs"
    have vs: "vs = ?P @ [vs ! i, vs ! Suc i] @ ?S"
      using assms(3) True by (intro adjacent_split) simp
    have lp: "length ?P = i" using assms(2) by simp
    have mv: "?mv = ?P @ [vs ! Suc i, vs ! i] @ ?S"
      using moved_list_forward [of ?P "vs ! i" "vs ! Suc i" ?S] vs lp True by simp
    have bk: "moved_list (?P @ [vs ! Suc i, vs ! i] @ ?S) i (Suc i) = vs"
      using moved_list_forward [of ?P "vs ! Suc i" "vs ! i" ?S] vs lp by simp
    have "(?P @ [vs ! Suc i, vs ! i] @ ?S) ! i = vs ! Suc i"
      using lp by (metis nth_append_length append_Cons)
    moreover have "(?P @ [vs ! Suc i, vs ! i] @ ?S) ! Suc i = vs ! i"
      using lp by (simp add: nth_append)
    ultimately show ?thesis using mv bk True by simp
  next
    case False
    with assms(4) have ij: "i = Suc j" by simp
    let ?P = "take j vs" and ?S = "drop (Suc (Suc j)) vs"
    have vs: "vs = ?P @ [vs ! j, vs ! Suc j] @ ?S"
      using assms(2) ij by (intro adjacent_split) simp
    have lp: "length ?P = j" using assms(3) by simp
    have mv: "?mv = ?P @ [vs ! Suc j, vs ! j] @ ?S"
      using moved_list_backward [of ?P "vs ! j" "vs ! Suc j" ?S] vs lp ij by simp
    have bk: "moved_list (?P @ [vs ! Suc j, vs ! j] @ ?S) (Suc j) j = vs"
      using moved_list_backward [of ?P "vs ! Suc j" "vs ! j" ?S] vs lp by simp
    have "(?P @ [vs ! Suc j, vs ! j] @ ?S) ! j = vs ! Suc j"
      using lp by (metis nth_append_length append_Cons)
    moreover have "(?P @ [vs ! Suc j, vs ! j] @ ?S) ! Suc j = vs ! j"
      using lp by (simp add: nth_append)
    ultimately show ?thesis using mv bk ij by simp
  qed
  show "raw_index (id_d (vs ! j)) ?mv = i"
    using raw_index_nth_distinct [OF dist, of i] swap assms(2) len by simp
  show "raw_index (id_d (vs ! i)) ?mv = j"
    using raw_index_nth_distinct [OF dist, of j] swap assms(3) len by simp
  show "moved_list ?mv i j = vs" using swap by simp
qed

text \<open>
  C5 (amended). For two ids present in the stored list of a model with pairwise distinct
  ids in which every stored descriptor has a state, \<^verbatim>\<open>move(from, to)\<close> returns and fires exactly
  one move event, carrying the raw index and the descriptor of \<^verbatim>\<open>from\<close> and of \<^verbatim>\<open>to\<close> before
  the move; the descriptor of \<^verbatim>\<open>from\<close> is taken out of its raw position and put back at the raw
  index \<^verbatim>\<open>to\<close> had, where it is after the move; the state of every descriptor of the list gets
  its new raw index as \<^verbatim>\<open>order\<close> and is otherwise unchanged. When the two descriptors are
  adjacent (one position apart), \<^verbatim>\<open>move(from, to)\<close> followed by \<^verbatim>\<open>move(to, from)\<close> restores the
  raw order.
\<close>

theorem move_spec:
  assumes "has_states m" and "distinct (map id_d (viewDescriptors m))"
    and "fromId \<in> set (map id_d (viewDescriptors m))"
    and "toId \<in> set (map id_d (viewDescriptors m))"
  shows "\<exists>m'. move m fromId toId =
            Inr (m', [DidMove (int (raw_index fromId (viewDescriptors m)))
                        (Some (viewDescriptors m ! raw_index fromId (viewDescriptors m)))
                        (int (raw_index toId (viewDescriptors m)))
                        (Some (viewDescriptors m ! raw_index toId (viewDescriptors m)))])
          \<and> viewDescriptors m' =
              moved_list (viewDescriptors m) (raw_index fromId (viewDescriptors m))
                (raw_index toId (viewDescriptors m))
          \<and> viewDescriptors m' ! raw_index toId (viewDescriptors m) =
              viewDescriptors m ! raw_index fromId (viewDescriptors m)
          \<and> (\<forall>k < length (viewDescriptors m').
                \<exists>s. map_of (viewStates m) (id_d (viewDescriptors m' ! k)) = Some s
                   \<and> map_of (viewStates m') (id_d (viewDescriptors m' ! k))
                       = Some (s\<lparr>order := Some (int k)\<rparr>))
          \<and> (raw_index toId (viewDescriptors m) = Suc (raw_index fromId (viewDescriptors m))
               \<or> raw_index fromId (viewDescriptors m) = Suc (raw_index toId (viewDescriptors m))
              \<longrightarrow> (\<exists>m'' evs. move m' toId fromId = Inr (m'', evs)
                      \<and> viewDescriptors m'' = viewDescriptors m))"
proof -
  let ?vs = "viewDescriptors m"
  let ?i = "raw_index fromId ?vs"
  let ?j = "raw_index toId ?vs"
  let ?mv = "moved_list ?vs ?i ?j"
  have i: "?i < length ?vs" and j: "?j < length ?vs"
    using assms(3,4) by (simp_all only: raw_index_less)
  have idi: "id_d (?vs ! ?i) = fromId" and idj: "id_d (?vs ! ?j) = toId"
    using assms(3,4) by (simp_all only: raw_index_id)
  from move_present [OF assms] obtain st' where
    mv: "move m fromId toId =
      Inr (m\<lparr>viewDescriptors := ?mv, viewStates := st'\<rparr>,
        [DidMove (int ?i) (Some (?vs ! ?i)) (int ?j) (Some (?vs ! ?j))])" and
    sp: "\<And>ident. map_of st' ident =
                (if ident \<in> set (map id_d ?vs)
                 then map_option (\<lambda>s. s\<lparr>order := Some (int (raw_index ident ?mv))\<rparr>)
                        (map_of (viewStates m) ident)
                 else map_of (viewStates m) ident)"
    by blast
  let ?m' = "m\<lparr>viewDescriptors := ?mv, viewStates := st'\<rparr>"
  have ms: "mset ?mv = mset ?vs" using i by (rule moved_list_mset)
  then have "mset (map id_d ?mv) = mset (map id_d ?vs)" by simp
  then have dist: "distinct (map id_d ?mv)"
    using assms(2) mset_eq_imp_distinct_iff by blast
  have set_eq: "set ?mv = set ?vs" using ms by (rule mset_eq_setD)
  have p3: "?mv ! ?j = ?vs ! ?i" using i j by (rule moved_list_nth)
  have p4: "\<exists>s. map_of (viewStates m) (id_d (?mv ! k)) = Some s
                   \<and> map_of st' (id_d (?mv ! k)) = Some (s\<lparr>order := Some (int k)\<rparr>)"
    if k: "k < length ?mv" for k
  proof -
    have mem: "?mv ! k \<in> set ?vs" using k set_eq nth_mem by blast
    then obtain s where s: "map_of (viewStates m) (id_d (?mv ! k)) = Some s"
      using assms(1) by (auto simp: has_states_def list_all_iff)
    have "raw_index (id_d (?mv ! k)) ?mv = k" using dist k by (rule raw_index_nth_distinct)
    then show ?thesis using sp [of "id_d (?mv ! k)"] mem s by simp
  qed
  have p5: "\<exists>m'' evs. move ?m' toId fromId = Inr (m'', evs) \<and> viewDescriptors m'' = ?vs"
    if adj: "?j = Suc ?i \<or> ?i = Suc ?j"
  proof -
    have h': "has_states ?m'"
      using perform_preserves [OF assms(1), of "Move fromId toId"] mv by simp
    have d': "distinct (map id_d (viewDescriptors ?m'))" using dist by simp
    have f': "toId \<in> set (map id_d (viewDescriptors ?m'))"
      and t': "fromId \<in> set (map id_d (viewDescriptors ?m'))"
      using assms(3,4) set_eq by simp_all
    have r1: "raw_index toId ?mv = ?i" and r2: "raw_index fromId ?mv = ?j"
      and bk: "moved_list ?mv ?i ?j = ?vs"
      using moved_list_there_and_back [OF assms(2) i j adj] idi idj by simp_all
    from move_present [OF h' d' f' t'] show ?thesis
      using r1 r2 bk by auto
  qed
  show ?thesis
    using mv p3 p4 p5 by (intro exI [of _ ?m']) simp
qed

theorem move_spec_witness:
  "has_states model_abc \<and> distinct (map id_d (viewDescriptors model_abc))
   \<and> ''a'' \<in> set (map id_d (viewDescriptors model_abc))
   \<and> ''b'' \<in> set (map id_d (viewDescriptors model_abc))
   \<and> raw_index ''b'' (viewDescriptors model_abc) = Suc (raw_index ''a'' (viewDescriptors model_abc))
   \<and> move model_abc ''a'' ''b'' = Inr (model_bac, [DidMove 0 (Some view_a) 1 (Some view_b)])
   \<and> (case move model_bac ''b'' ''a'' of
         Inl e \<Rightarrow> False
       | Inr (m'', evs) \<Rightarrow> viewDescriptors m'' = viewDescriptors model_abc)"
proof -
  have h: "has_states model_abc"
    by (simp add: has_states_def model_abc_def view_a_def view_b_def view_c_def)
  have d: "distinct (map id_d (viewDescriptors model_abc))"
    and a: "''a'' \<in> set (map id_d (viewDescriptors model_abc))"
    and b: "''b'' \<in> set (map id_d (viewDescriptors model_abc))"
    by (simp_all add: model_abc_def view_a_def view_b_def view_c_def)
  have ia: "raw_index ''a'' (viewDescriptors model_abc) = 0"
    and ib: "raw_index ''b'' (viewDescriptors model_abc) = Suc 0"
    by (simp_all add: raw_index_def model_abc_def view_a_def view_b_def view_c_def)
  have e: "move model_abc ''a'' ''b'' = Inr (model_bac, [DidMove 0 (Some view_a) 1 (Some view_b)])"
    by (simp add: move_def Let_def model_abc_def model_bac_def
        firstIndex_def js_index_def arrays_move_def js_splice_def
        view_a_def view_b_def view_c_def defaultState_def)
  from move_spec [OF h d a b] obtain m' where
    m: "move model_abc ''a'' ''b'' =
          Inr (m', [DidMove (int (raw_index ''a'' (viewDescriptors model_abc)))
                      (Some (viewDescriptors model_abc ! raw_index ''a'' (viewDescriptors model_abc)))
                      (int (raw_index ''b'' (viewDescriptors model_abc)))
                      (Some (viewDescriptors model_abc ! raw_index ''b'' (viewDescriptors model_abc)))])"
    and r: "raw_index ''b'' (viewDescriptors model_abc) = Suc (raw_index ''a'' (viewDescriptors model_abc))
               \<or> raw_index ''a'' (viewDescriptors model_abc) = Suc (raw_index ''b'' (viewDescriptors model_abc))
              \<longrightarrow> (\<exists>m'' evs. move m' ''b'' ''a'' = Inr (m'', evs)
                      \<and> viewDescriptors m'' = viewDescriptors model_abc)"
    by blast
  from m e have "m' = model_bac" by simp
  with r ia ib obtain m'' evs where
    "move model_bac ''b'' ''a'' = Inr (m'', evs)" "viewDescriptors m'' = viewDescriptors model_abc"
    by auto
  then have "(case move model_bac ''b'' ''a'' of
         Inl e \<Rightarrow> False
       | Inr (m'', evs) \<Rightarrow> viewDescriptors m'' = viewDescriptors model_abc)"
    by simp
  with h d a b ia ib e show ?thesis by simp
qed

text \<open>
  Two positions apart the round trip does not restore the order: in \<^verbatim>\<open>[a, b, c]\<close>,
  \<^verbatim>\<open>move('a', 'c')\<close> gives \<^verbatim>\<open>[b, c, a]\<close> and \<^verbatim>\<open>move('c', 'a')\<close> then gives \<^verbatim>\<open>[b, a, c]\<close>.
\<close>

theorem move_two_apart_counterexample:
  "raw_index ''c'' (viewDescriptors model_abc) = raw_index ''a'' (viewDescriptors model_abc) + 2
   \<and> move model_abc ''a'' ''c'' = Inr (model_bca, [DidMove 0 (Some view_a) 2 (Some view_c)])
   \<and> move model_bca ''c'' ''a'' = Inr (model_bac, [DidMove 1 (Some view_c) 2 (Some view_a)])
   \<and> viewDescriptors model_bac \<noteq> viewDescriptors model_abc"
  by (simp add: move_def Let_def raw_index_def model_abc_def model_bca_def model_bac_def
      firstIndex_def js_index_def arrays_move_def js_splice_def
      view_a_def view_b_def view_c_def defaultState_def)

section \<open>Deregistration\<close>

lemma firstIndex_from_found:
  "\<exists>x\<in>set xs. P x \<Longrightarrow>
     firstIndex_from P xs i = i + int (length (takeWhile (\<lambda>x. \<not> P x) xs))"
proof (induction xs arbitrary: i)
  case Nil
  then show ?case by simp
next
  case (Cons x xs)
  show ?case
  proof (cases "P x")
    case True
    then show ?thesis by simp
  next
    case False
    with Cons.prems have "\<exists>x\<in>set xs. P x" by simp
    from Cons.IH [OF this, of "i + 1"] False show ?thesis by simp
  qed
qed

lemma firstIndex_from_none:
  "\<forall>x\<in>set xs. \<not> P x \<Longrightarrow> firstIndex_from P xs i = - 1"
  by (induction xs arbitrary: i) auto

lemma firstIndex_from_bound:
  "\<exists>x\<in>set xs. P x \<Longrightarrow> length (takeWhile (\<lambda>x. \<not> P x) xs) < length xs"
  by (induction xs) auto

lemma remove_first_distinct:
  assumes "distinct (map f xs)" and "a \<in> set (map f xs)"
  shows "take (length (takeWhile (\<lambda>x. f x \<noteq> a) xs)) xs
           @ drop (Suc (length (takeWhile (\<lambda>x. f x \<noteq> a) xs))) xs
         = filter (\<lambda>x. f x \<noteq> a) xs"
  using assms
proof (induction xs)
  case Nil
  then show ?case by simp
next
  case (Cons x xs)
  show ?case
  proof (cases "f x = a")
    case True
    with Cons.prems(1) have "\<forall>y\<in>set xs. f y \<noteq> a"
      by (metis distinct.simps(2) image_eqI list.simps(9) set_map)
    then have "filter (\<lambda>x. f x \<noteq> a) xs = xs" by (simp add: filter_id_conv)
    with True show ?thesis by simp
  next
    case False
    with Cons show ?thesis by simp
  qed
qed

lemma set_map_filter_neq:
  "set (map f (filter (\<lambda>x. f x \<noteq> a) xs)) = set (map f xs) - {a}"
  by (induction xs) auto

lemma nth_first:
  "a \<in> set (map f xs) \<Longrightarrow> f (xs ! length (takeWhile (\<lambda>x. f x \<noteq> a) xs)) = a"
  by (induction xs) auto

lemma count_of_delete:
  "count_of (snd (counter_delete cs v)) k = (if k = v then count_of cs k - 1 else count_of cs k)"
  by (auto simp: counter_delete_def count_of_def Let_def update_conv' delete_conv'
      split: option.splits)

lemma count_of_fold_delete:
  "count_of (fold (\<lambda>key m. snd (counter_delete m key)) ks cs) k = count_of cs k - count_list ks k"
  by (induction ks arbitrary: cs) (auto simp: count_of_delete)

lemma count_of_deleteKeys:
  "count_of (deleteKeys vd cs) k = count_of cs k - count_list (keys_of vd) k"
  by (simp add: deleteKeys_def keys_of_def count_of_fold_delete split: option.splits)

lemma deregister_loop_spec:
  assumes "distinct (map (\<lambda>i. id_d (viewDescriptor i)) (items c))"
  shows "items (fst (deregister_loop vds c fire)) =
           filter (\<lambda>i. id_d (viewDescriptor i) \<notin> set (map id_d vds)) (items c)
       \<and> snd (deregister_loop vds c fire) =
           (fire \<or> (\<exists>i\<in>set (items c). id_d (viewDescriptor i) \<in> set (map id_d vds) \<and> active i))
       \<and> (distinct (map id_d vds) \<longrightarrow>
            (\<forall>k. count_of (contextKeys (fst (deregister_loop vds c fire))) k =
               count_of (contextKeys c) k
               - count_list
                   (concat (map keys_of
                      (filter (\<lambda>vd. id_d vd \<in> set (map (\<lambda>i. id_d (viewDescriptor i)) (items c))) vds)))
                   k))"
  using assms
proof (induction vds arbitrary: c fire)
  case Nil
  then show ?case by simp
next
  case (Cons vd vds)
  let ?f = "\<lambda>i. id_d (viewDescriptor i)"
  show ?case
  proof (cases "id_d vd \<in> set (map ?f (items c))")
    case False
    then have none: "\<forall>x\<in>set (items c). \<not> ?f x = id_d vd" by force
    then have idx: "firstIndex (items c) (\<lambda>i. ?f i = id_d vd) = - 1"
      by (simp add: firstIndex_def firstIndex_from_none)
    have flt: "filter (\<lambda>i. ?f i \<notin> set (map id_d (vd # vds))) (items c)
             = filter (\<lambda>i. ?f i \<notin> set (map id_d vds)) (items c)"
      using none by (intro filter_cong) auto
    show ?thesis
      using Cons.IH [OF Cons.prems, of fire] idx flt none False by auto
  next
    case True
    let ?k = "length (takeWhile (\<lambda>x. ?f x \<noteq> id_d vd) (items c))"
    have ex: "\<exists>x\<in>set (items c). ?f x = id_d vd" using True by auto
    have idx: "firstIndex (items c) (\<lambda>i. ?f i = id_d vd) = int ?k"
      using ex by (simp add: firstIndex_def firstIndex_from_found)
    have k: "?k < length (items c)" using ex firstIndex_from_bound [of "items c" "\<lambda>i. ?f i = id_d vd"] by simp
    have item: "?f (items c ! ?k) = id_d vd" using True by (rule nth_first)
    have rest: "snd (js_splice (items c) (int ?k) 1 []) = filter (\<lambda>x. ?f x \<noteq> id_d vd) (items c)"
      using k remove_first_distinct [OF Cons.prems True]
      by (simp add: js_splice_def Let_def nat_add_distrib)
    let ?c' = "c\<lparr>items := filter (\<lambda>x. ?f x \<noteq> id_d vd) (items c),
                  contextKeys := deleteKeys vd (contextKeys c)\<rparr>"
    have step: "deregister_loop (vd # vds) c fire = deregister_loop vds ?c' (fire \<or> active (items c ! ?k))"
      using idx rest by (simp add: Let_def)
    have d': "distinct (map ?f (items ?c'))" using Cons.prems by (simp add: distinct_map_filter)
    note IH = Cons.IH [OF d', of "fire \<or> active (items c ! ?k)"]
    have uniq: "i = items c ! ?k" if "i \<in> set (items c)" "?f i = id_d vd" for i
    proof -
      have "inj_on ?f (set (items c))" using Cons.prems by (simp add: distinct_map)
      moreover have "items c ! ?k \<in> set (items c)" using k by simp
      ultimately show ?thesis using that item by (simp add: inj_on_def)
    qed
    have p1: "items (fst (deregister_loop (vd # vds) c fire)) =
           filter (\<lambda>i. ?f i \<notin> set (map id_d (vd # vds))) (items c)"
      using IH step by (simp add: conj_commute)
    have p2: "snd (deregister_loop (vd # vds) c fire) =
           (fire \<or> (\<exists>i\<in>set (items c). ?f i \<in> set (map id_d (vd # vds)) \<and> active i))"
    proof -
      have "snd (deregister_loop (vd # vds) c fire) =
          ((fire \<or> active (items c ! ?k)) \<or>
            (\<exists>i\<in>set (items c). ?f i \<noteq> id_d vd \<and> ?f i \<in> set (map id_d vds) \<and> active i))"
        using IH step by auto
      also have "\<dots> = (fire \<or> (\<exists>i\<in>set (items c). ?f i \<in> set (map id_d (vd # vds)) \<and> active i))"
        using uniq k item by (metis (no_types, lifting) list.set_intros(1,2) list.simps(9) nth_mem set_ConsD)
      finally show ?thesis .
    qed
    have p3: "count_of (contextKeys (fst (deregister_loop (vd # vds) c fire))) key =
               count_of (contextKeys c) key
               - count_list
                   (concat (map keys_of
                      (filter (\<lambda>vd. id_d vd \<in> set (map ?f (items c))) (vd # vds))))
                   key" if dist: "distinct (map id_d (vd # vds))" for key
    proof -
      have dv: "distinct (map id_d vds)" and nv: "id_d vd \<notin> set (map id_d vds)"
        using dist by simp_all
      have same: "filter (\<lambda>v. id_d v \<in> set (map ?f (items ?c'))) vds
                = filter (\<lambda>v. id_d v \<in> set (map ?f (items c))) vds"
      proof (rule filter_cong [OF refl])
        fix v
        assume "v \<in> set vds"
        then have ne: "id_d v \<noteq> id_d vd" using nv by (metis image_eqI set_map)
        have "set (map ?f (items ?c')) = set (map ?f (items c)) - {id_d vd}"
          using set_map_filter_neq [of ?f "id_d vd" "items c"] by simp
        then show "(id_d v \<in> set (map ?f (items ?c'))) = (id_d v \<in> set (map ?f (items c)))"
          using ne by blast
      qed
      have "count_of (contextKeys (fst (deregister_loop vds ?c' (fire \<or> active (items c ! ?k))))) key =
               count_of (contextKeys ?c') key
               - count_list
                   (concat (map keys_of
                      (filter (\<lambda>v. id_d v \<in> set (map ?f (items ?c'))) vds)))
                   key"
        using IH dv by blast
      then show ?thesis
        unfolding step same using True by (simp add: count_of_deleteKeys)
    qed
    from p1 p2 p3 show ?thesis by blast
  qed
qed

text \<open>
  C6. For a collection whose items have pairwise distinct ids, \<^verbatim>\<open>onViewsDeregistered\<close> removes
  exactly the items whose id is the id of a descriptor of the batch and keeps the others in
  order; the change signal fires once when at least one removed item was active and not at
  all otherwise, so deregistering only inactive descriptors never fires it; and, for a batch
  of pairwise distinct ids, the counter of every context key goes down by the number of times
  the key occurs among the keys of the batch descriptors that had an item (never below 0).
\<close>

theorem onViewsDeregistered_spec:
  assumes "distinct (map (\<lambda>i. id_d (viewDescriptor i)) (items c))"
  shows "items (fst (onViewsDeregistered c batch)) =
           filter (\<lambda>i. id_d (viewDescriptor i) \<notin> set (map id_d batch)) (items c)
       \<and> snd (onViewsDeregistered c batch) =
           (if \<exists>i\<in>set (items c). id_d (viewDescriptor i) \<in> set (map id_d batch) \<and> active i
            then 1 else 0)
       \<and> ((\<forall>i\<in>set (items c). id_d (viewDescriptor i) \<in> set (map id_d batch) \<longrightarrow> \<not> active i)
            \<longrightarrow> snd (onViewsDeregistered c batch) = 0)
       \<and> (distinct (map id_d batch) \<longrightarrow>
            (\<forall>k. count_of (contextKeys (fst (onViewsDeregistered c batch))) k =
               count_of (contextKeys c) k
               - count_list
                   (concat (map keys_of
                      (filter (\<lambda>vd. id_d vd \<in> set (map (\<lambda>i. id_d (viewDescriptor i)) (items c))) batch)))
                   k))"
proof -
  have f: "fst (onViewsDeregistered c batch) = fst (deregister_loop batch c False)"
    and s: "snd (onViewsDeregistered c batch) = (if snd (deregister_loop batch c False) then 1 else 0)"
    by (simp_all add: onViewsDeregistered_def split: prod.splits)
  note l = deregister_loop_spec [OF assms, of batch False]
  have p1: "items (fst (onViewsDeregistered c batch)) =
           filter (\<lambda>i. id_d (viewDescriptor i) \<notin> set (map id_d batch)) (items c)"
    using l f by simp
  have p2: "snd (onViewsDeregistered c batch) =
           (if \<exists>i\<in>set (items c). id_d (viewDescriptor i) \<in> set (map id_d batch) \<and> active i
            then 1 else 0)"
    using l s by simp
  have p3: "snd (onViewsDeregistered c batch) = 0"
    if "\<forall>i\<in>set (items c). id_d (viewDescriptor i) \<in> set (map id_d batch) \<longrightarrow> \<not> active i"
    using that p2 by auto
  have p4: "\<forall>k. count_of (contextKeys (fst (onViewsDeregistered c batch))) k =
               count_of (contextKeys c) k
               - count_list
                   (concat (map keys_of
                      (filter (\<lambda>vd. id_d vd \<in> set (map (\<lambda>i. id_d (viewDescriptor i)) (items c))) batch)))
                   k"
    if "distinct (map id_d batch)"
    using that l unfolding f by blast
  from p1 p2 p3 p4 show ?thesis by blast
qed

theorem onViewsDeregistered_spec_witness:
  "distinct (map (\<lambda>i. id_d (viewDescriptor i)) (items collection_xy))
   \<and> distinct (map id_d [view_y])
   \<and> items (fst (onViewsDeregistered collection_xy [view_y])) = [\<lparr>viewDescriptor = view_x, active = True\<rparr>]
   \<and> snd (onViewsDeregistered collection_xy [view_y]) = 0
   \<and> count_of (contextKeys collection_xy) ''k'' = 1
   \<and> count_of (contextKeys (fst (onViewsDeregistered collection_xy [view_y]))) ''k'' = 0
   \<and> snd (onViewsDeregistered collection_xy [view_x]) = 1"
proof -
  have d: "distinct (map (\<lambda>i. id_d (viewDescriptor i)) (items collection_xy))"
    by (simp add: collection_xy_def view_x_def view_y_def)
  have b: "distinct (map id_d [view_y])" by simp
  have fl: "filter (\<lambda>i. id_d (viewDescriptor i) \<notin> set (map id_d [view_y])) (items collection_xy)
      = [\<lparr>viewDescriptor = view_x, active = True\<rparr>]"
    by (simp add: collection_xy_def view_x_def view_y_def)
  have inact: "\<forall>i\<in>set (items collection_xy).
      id_d (viewDescriptor i) \<in> set (map id_d [view_y]) \<longrightarrow> \<not> active i"
    by (simp add: collection_xy_def view_x_def view_y_def)
  have c0: "count_of (contextKeys collection_xy) ''k'' = 1"
    by (simp add: count_of_def collection_xy_def)
  have kl: "count_list
                   (concat (map keys_of
                      (filter (\<lambda>vd. id_d vd \<in> set (map (\<lambda>i. id_d (viewDescriptor i)) (items collection_xy))) [view_y])))
                   ''k'' = 1"
    by (simp add: keys_of_def collection_xy_def view_x_def view_y_def)
  have act: "\<exists>i\<in>set (items collection_xy). id_d (viewDescriptor i) \<in> set (map id_d [view_x]) \<and> active i"
    by (simp add: collection_xy_def view_x_def view_y_def)
  note t = onViewsDeregistered_spec [OF d, of "[view_y]"]
  note u = onViewsDeregistered_spec [OF d, of "[view_x]"]
  have w1: "items (fst (onViewsDeregistered collection_xy [view_y])) = [\<lparr>viewDescriptor = view_x, active = True\<rparr>]"
    using t fl by simp
  have w2: "snd (onViewsDeregistered collection_xy [view_y]) = 0"
    using t inact by blast
  have w3: "count_of (contextKeys (fst (onViewsDeregistered collection_xy [view_y]))) ''k'' = 0"
    using t b c0 kl by simp
  have w4: "snd (onViewsDeregistered collection_xy [view_x]) = 1"
    using u act by simp
  from d b w1 w2 c0 w3 w4 show ?thesis by blast
qed

section \<open>Comment nodes\<close>

lemma createCommentNode_nonempty:
  assumes "comments t \<noteq> []"
  shows "createCommentNode res t =
           Some (CommentNode (threadId t) res (hd (comments t)) (range_t t)
                   (map (\<lambda>c. CommentNode (threadId t) res c (range_t t) []) (tl (comments t))))"
proof -
  from assms obtain c cs where cs: "comments t = c # cs" by (cases "comments t") auto
  show ?thesis
    unfolding createCommentNode_def Let_def cs
    by (cases cs) (simp_all add: newCommentNode_def)
qed

section \<open>Grouping by resource\<close>

lemma is_pos_compareURIs: "is_pos (compareURIs a b) \<longleftrightarrow> resource b < resource a"
  by (auto simp: compareURIs_def Let_def)

lemma is_zero_compareURIs: "is_zero (compareURIs a b) \<longleftrightarrow> resource a = resource b"
  by (auto simp: compareURIs_def Let_def)

lemma insort_cmp_resource: "insort_cmp compareURIs x xs = insort_key resource x xs"
  by (induction xs) (auto simp: is_pos_compareURIs)

lemma sort_cmp_resource: "sort_cmp compareURIs xs = sort_key resource xs"
proof -
  have "insort_cmp compareURIs = insort_key resource"
    by (intro ext) (rule insort_cmp_resource)
  then show ?thesis by (simp add: sort_cmp_def sort_key_def)
qed

lemma groupBy_loop_concat:
  "concat (groupBy_loop cmp es result cur) = concat result @ cur @ es"
  by (induction es arbitrary: result cur) (auto split: list.splits)

lemma groupBy_loop_nonempty:
  "\<forall>g\<in>set result. g \<noteq> [] \<Longrightarrow> \<forall>g\<in>set (groupBy_loop cmp es result cur). g \<noteq> []"
proof (induction es arbitrary: result cur)
  case Nil
  then show ?case by simp
next
  case (Cons e es)
  show ?case
  proof (cases cur)
    case Nil
    then show ?thesis using Cons.IH [OF Cons.prems, of "[e]"] by simp
  next
    case (Cons f fs)
    have "\<forall>g\<in>set (result @ [cur]). g \<noteq> []" using Cons Cons.prems by simp
    from Cons.IH [OF this, of "[e]"] Cons.IH [OF Cons.prems, of "cur @ [e]"] Cons
    show ?thesis by simp
  qed
qed

lemma same_resource_snoc:
  assumes "same_resource (f # fs)" and "resource f = resource e"
  shows "same_resource ((f # fs) @ [e])"
  using assms by (simp add: same_resource_def)

lemma groupBy_loop_same:
  assumes "list_all same_resource result" and "same_resource cur"
  shows "list_all same_resource (groupBy_loop compareURIs es result cur)"
  using assms
proof (induction es arbitrary: result cur)
  case Nil
  then show ?case by simp
next
  case (Cons e es)
  note IH = Cons.IH and prems = Cons.prems
  have single: "same_resource [e]" by (simp add: same_resource_def)
  show ?case
  proof (cases cur)
    case Nil
    then show ?thesis using IH [OF prems(1) single] by simp
  next
    case cur: (Cons f fs)
    show ?thesis
    proof (cases "is_zero (compareURIs f e)")
      case True
      then have "same_resource (cur @ [e])"
        using prems(2) unfolding cur by (intro same_resource_snoc) (simp_all add: is_zero_compareURIs)
      from IH [OF prems(1) this] True cur show ?thesis by simp
    next
      case False
      have "list_all same_resource (result @ [cur])" using prems by simp
      from IH [OF this single] False cur show ?thesis by simp
    qed
  qed
qed

lemma groupBy_loop_heads:
  assumes "sorted (map resource es)"
    and "sorted_wrt (<) (map (\<lambda>g. resource (hd g)) (result @ (if cur = [] then [] else [cur])))"
    and "cur = [] \<longrightarrow> result = []"
    and "\<forall>e\<in>set es. cur \<noteq> [] \<longrightarrow> resource (hd cur) \<le> resource e"
  shows "sorted_wrt (<) (map (\<lambda>g. resource (hd g)) (groupBy_loop compareURIs es result cur))"
  using assms
proof (induction es arbitrary: result cur)
  case Nil
  then show ?case by (cases "cur = []") simp_all
next
  case (Cons e es)
  have s: "sorted (map resource es)" and le: "\<forall>x\<in>set es. resource e \<le> resource x"
    using Cons.prems(1) by simp_all
  show ?case
  proof (cases cur)
    case Nil
    with Cons.prems(3) have "result = []" by simp
    with Nil show ?thesis using Cons.IH [OF s, of "[]" "[e]"] le by simp
  next
    case (Cons f fs)
    show ?thesis
    proof (cases "is_zero (compareURIs f e)")
      case True
      have "sorted_wrt (<) (map (\<lambda>g. resource (hd g)) (result @ (if cur @ [e] = [] then [] else [cur @ [e]])))"
        using Cons.prems(2) Cons by simp
      moreover have "\<forall>x\<in>set es. cur @ [e] \<noteq> [] \<longrightarrow> resource (hd (cur @ [e])) \<le> resource x"
        using Cons.prems(4) Cons by simp
      ultimately show ?thesis
        using Cons.IH [OF s, of result "cur @ [e]"] True Cons by simp
    next
      case False
      have "resource f \<le> resource e" using Cons.prems(4) Cons by simp
      with False have lt: "resource f < resource e" by (simp add: is_zero_compareURIs)
      have old: "sorted_wrt (<) (map (\<lambda>g. resource (hd g)) result)"
        and below: "\<forall>g\<in>set result. resource (hd g) < resource f"
        using Cons.prems(2) Cons by (simp_all add: sorted_wrt_append)
      have "sorted_wrt (<) (map (\<lambda>g. resource (hd g)) ((result @ [cur]) @ (if [e] = [] then [] else [[e]])))"
        using old below lt Cons by (auto simp: sorted_wrt_append)
      moreover have "\<forall>x\<in>set es. [e] \<noteq> [] \<longrightarrow> resource (hd [e]) \<le> resource x"
        using le by simp
      ultimately show ?thesis
        using Cons.IH [OF s, of "result @ [cur]" "[e]"] False Cons by simp
    qed
  qed
qed

lemma groupBy_concat: "concat (groupBy ts compareURIs) = sort_key resource ts"
  by (simp add: groupBy_def groupBy_loop_concat sort_cmp_resource)

lemma groupBy_nonempty: "\<forall>g\<in>set (groupBy ts compareURIs). g \<noteq> []"
  unfolding groupBy_def by (rule groupBy_loop_nonempty) simp

lemma groupBy_same: "list_all same_resource (groupBy ts compareURIs)"
  unfolding groupBy_def by (rule groupBy_loop_same) (simp_all add: same_resource_def)

lemma groupBy_heads:
  "sorted_wrt (<) (map (\<lambda>g. resource (hd g)) (groupBy ts compareURIs))"
  unfolding groupBy_def by (rule groupBy_loop_heads) (simp_all add: sort_cmp_resource)

lemma groupBy_distinct: "distinct (map (\<lambda>g. resource (hd g)) (groupBy ts compareURIs))"
  using groupBy_heads [of ts] strict_sorted_iff by blast

lemma update_new_key: "k \<notin> fst ` set al \<Longrightarrow> AList.update k v al = al @ [(k, v)]"
  by (induction al) auto

lemma groupsToMap_distinct:
  assumes "\<forall>g\<in>set gs. g \<noteq> []" and "distinct (map (\<lambda>g. resource (hd g)) gs)"
    and "\<forall>g\<in>set gs. resource (hd g) \<notin> fst ` set acc"
  shows "groupsToMap parse toStr gs acc =
           Inr (acc @ map (\<lambda>g. (resource (hd g),
                                 newResourceWithCommentThreads toStr (parse (resource (hd g))) g)) gs)"
  using assms
proof (induction gs arbitrary: acc)
  case Nil
  then show ?case by simp
next
  case (Cons g gs)
  from Cons.prems(1) obtain t ts where g: "g = t # ts" by (cases g) auto
  let ?acc' = "AList.update (resource t) (newResourceWithCommentThreads toStr (parse (resource t)) g) acc"
  have acc': "?acc' = acc @ [(resource t, newResourceWithCommentThreads toStr (parse (resource t)) g)]"
    using Cons.prems(3) g by (intro update_new_key) simp
  have "\<forall>h\<in>set gs. resource (hd h) \<notin> fst ` set ?acc'"
  proof
    fix h
    assume h: "h \<in> set gs"
    then have "resource (hd h) \<notin> fst ` set acc" using Cons.prems(3) by simp
    moreover have "resource (hd h) \<noteq> resource t"
    proof
      assume eq: "resource (hd h) = resource t"
      have "resource t \<notin> (\<lambda>g. resource (hd g)) ` set gs"
        using Cons.prems(2) g by simp
      moreover have "resource (hd h) \<in> (\<lambda>g. resource (hd g)) ` set gs"
        using h by (rule imageI)
      ultimately show False unfolding eq by simp
    qed
    ultimately show "resource (hd h) \<notin> fst ` set ?acc'" unfolding acc' by simp
  qed
  moreover have "\<forall>h\<in>set gs. h \<noteq> []" "distinct (map (\<lambda>g. resource (hd g)) gs)"
    using Cons.prems(1,2) by simp_all
  ultimately have "groupsToMap parse toStr gs ?acc' =
      Inr (?acc' @ map (\<lambda>g. (resource (hd g),
                                 newResourceWithCommentThreads toStr (parse (resource (hd g))) g)) gs)"
    by (intro Cons.IH)
  then show ?case using g acc' by simp
qed

lemma addCommentThreads_result:
  "addCommentThreads parse toStr m ts =
     Inr (m\<lparr>resourceCommentThreads :=
              resourceCommentThreads m @
                map (\<lambda>g. newResourceWithCommentThreads toStr (parse (resource (hd g))) g)
                  (groupBy ts compareURIs)\<rparr>)"
proof -
  have "groupsToMap parse toStr (groupBy ts compareURIs) [] =
      Inr ([] @ map (\<lambda>g. (resource (hd g),
                newResourceWithCommentThreads toStr (parse (resource (hd g))) g)) (groupBy ts compareURIs))"
    by (intro groupsToMap_distinct groupBy_nonempty groupBy_distinct) simp
  then show ?thesis by (simp add: addCommentThreads_def comp_def)
qed

lemma groupBy_single: "groupBy [t] cmp = [[t]]"
  by (simp add: groupBy_def sort_cmp_def)

text \<open>
  C7. For a thread with at least one comment, \<^verbatim>\<open>createCommentNode\<close> returns the node of the
  first comment, and the replies of that node are the nodes of the remaining comments, in
  order, each with no replies of its own: a flat list. Setting the model to a single such
  thread gives one resource entry holding that one node; with two comments its replies are
  exactly the node of the second comment.
\<close>

theorem createCommentNode_spec:
  "(comments t \<noteq> [] \<longrightarrow>
      createCommentNode res t =
        Some (CommentNode (threadId t) res (hd (comments t)) (range_t t)
                (map (\<lambda>c. CommentNode (threadId t) res c (range_t t) []) (tl (comments t)))))
   \<and> (comments t \<noteq> [] \<and> createCommentNode res t = Some n \<longrightarrow>
        comment n = hd (comments t) \<and> map comment (replies n) = tl (comments t)
        \<and> list_all (\<lambda>r. replies r = []) (replies n))
   \<and> (comments t \<noteq> [] \<longrightarrow>
        setCommentThreads parse toStr m [t] =
          Inr (m\<lparr>resourceCommentThreads :=
                   [\<lparr>id_r = toStr (parse (resource t)),
                     commentThreads =
                       [Some (CommentNode (threadId t) (parse (resource t)) (hd (comments t)) (range_t t)
                                (map (\<lambda>c. CommentNode (threadId t) (parse (resource t)) c (range_t t) [])
                                   (tl (comments t))))],
                     resource_r = parse (resource t)\<rparr>]\<rparr>))"
proof (intro conjI impI)
  show "createCommentNode res t =
        Some (CommentNode (threadId t) res (hd (comments t)) (range_t t)
                (map (\<lambda>c. CommentNode (threadId t) res c (range_t t) []) (tl (comments t))))"
    if "comments t \<noteq> []"
    using that by (rule createCommentNode_nonempty)
  assume a: "comments t \<noteq> [] \<and> createCommentNode res t = Some n"
  then have n: "n = CommentNode (threadId t) res (hd (comments t)) (range_t t)
                (map (\<lambda>c. CommentNode (threadId t) res c (range_t t) []) (tl (comments t)))"
    using createCommentNode_nonempty [of t res] by simp
  show "comment n = hd (comments t)" unfolding n by simp
  show "map comment (replies n) = tl (comments t)" unfolding n by (simp add: comp_def)
  show "list_all (\<lambda>r. replies r = []) (replies n)" unfolding n by (simp add: list_all_iff)
next
  assume "comments t \<noteq> []"
  then show "setCommentThreads parse toStr m [t] =
          Inr (m\<lparr>resourceCommentThreads :=
                   [\<lparr>id_r = toStr (parse (resource t)),
                     commentThreads =
                       [Some (CommentNode (threadId t) (parse (resource t)) (hd (comments t)) (range_t t)
                                (map (\<lambda>c. CommentNode (threadId t) (parse (resource t)) c (range_t t) [])
                                   (tl (comments t))))],
                     resource_r = parse (resource t)\<rparr>]\<rparr>)"
    by (simp add: setCommentThreads_def addCommentThreads_result groupBy_single
        newResourceWithCommentThreads_def createCommentNode_nonempty)
qed

theorem createCommentNode_spec_witness:
  "comments thread_t1 \<noteq> []
   \<and> createCommentNode ''file:///a.ts'' thread_t1 =
       Some (CommentNode ''t1'' ''file:///a.ts'' ''first'' range_1
               [CommentNode ''t1'' ''file:///a.ts'' ''second'' range_1 []])
   \<and> setCommentThreads (\<lambda>s. s) (\<lambda>u. u) newCommentsModel [thread_t1] =
       Inr \<lparr>resourceCommentThreads = [entry_t1]\<rparr>"
proof -
  have c: "comments thread_t1 \<noteq> []" by (simp add: thread_t1_def)
  note t = createCommentNode_spec [of thread_t1 "''file:///a.ts''" _ "\<lambda>s. s" "\<lambda>u. u" newCommentsModel]
  have w1: "createCommentNode ''file:///a.ts'' thread_t1 =
       Some (CommentNode ''t1'' ''file:///a.ts'' ''first'' range_1
               [CommentNode ''t1'' ''file:///a.ts'' ''second'' range_1 []])"
    using t c by (simp add: thread_t1_def)
  have w2: "setCommentThreads (\<lambda>s. s) (\<lambda>u. u) newCommentsModel [thread_t1] =
       Inr \<lparr>resourceCommentThreads = [entry_t1]\<rparr>"
    using t c by (simp add: thread_t1_def entry_t1_def newCommentsModel_def)
  from c w1 w2 show ?thesis by simp
qed

lemma filter_nonempty: "x \<in> set xs \<Longrightarrow> P x \<Longrightarrow> 1 \<le> length (filter P xs)"
  by (induction xs) auto

text \<open>
  C8. \<^verbatim>\<open>addCommentThreads\<close> always returns, and appends to \<^verbatim>\<open>resourceCommentThreads\<close> one new
  entry for every group of the added threads, in group order, leaving the entries that were
  there as they are. The groups partition the added threads by resource: every group is
  non-empty, its threads share one resource, and different groups have different resources.
  \<^verbatim>\<open>updateCommentThreads\<close> does this with \<^verbatim>\<open>event.added\<close> after its removed and changed phases.
  Nothing is merged: when an entry with the resource id of an added thread exists already,
  the model then holds at least two entries with that id.
\<close>

theorem addCommentThreads_appends:
  "addCommentThreads parse toStr m ts =
     Inr (m\<lparr>resourceCommentThreads :=
              resourceCommentThreads m @
                map (\<lambda>g. newResourceWithCommentThreads toStr (parse (resource (hd g))) g)
                  (groupBy ts compareURIs)\<rparr>)
   \<and> mset (concat (groupBy ts compareURIs)) = mset ts
   \<and> list_all (\<lambda>g. g \<noteq> [] \<and> same_resource g) (groupBy ts compareURIs)
   \<and> distinct (map (\<lambda>g. resource (hd g)) (groupBy ts compareURIs))
   \<and> (forEach_e removeThread (removed ev) m = Inr m1
        \<and> forEach_e (changeThread parse) (changed ev) m1 = Inr m2 \<longrightarrow>
        updateCommentThreads parse toStr m ev =
          Inr (m2\<lparr>resourceCommentThreads :=
                    resourceCommentThreads m2 @
                      map (\<lambda>g. newResourceWithCommentThreads toStr (parse (resource (hd g))) g)
                        (groupBy (added ev) compareURIs)\<rparr>))
   \<and> (t \<in> set ts \<and> r \<in> set (resourceCommentThreads m) \<and> id_r r = toStr (parse (resource t)) \<longrightarrow>
        (\<exists>m'. addCommentThreads parse toStr m ts = Inr m'
            \<and> 2 \<le> length (filter (\<lambda>e. id_r e = id_r r) (resourceCommentThreads m'))))"
proof (intro conjI impI)
  let ?mk = "\<lambda>g. newResourceWithCommentThreads toStr (parse (resource (hd g))) g"
  show res: "addCommentThreads parse toStr m ts =
     Inr (m\<lparr>resourceCommentThreads := resourceCommentThreads m @ map ?mk (groupBy ts compareURIs)\<rparr>)"
    by (rule addCommentThreads_result)
  show ms: "mset (concat (groupBy ts compareURIs)) = mset ts"
    by (simp add: groupBy_concat)
  show la: "list_all (\<lambda>g. g \<noteq> [] \<and> same_resource g) (groupBy ts compareURIs)"
    using groupBy_nonempty [of ts] groupBy_same [of ts] by (simp add: list_all_iff)
  show "distinct (map (\<lambda>g. resource (hd g)) (groupBy ts compareURIs))"
    by (rule groupBy_distinct)
  show "updateCommentThreads parse toStr m ev =
          Inr (m2\<lparr>resourceCommentThreads :=
                    resourceCommentThreads m2 @ map ?mk (groupBy (added ev) compareURIs)\<rparr>)"
    if "forEach_e removeThread (removed ev) m = Inr m1
        \<and> forEach_e (changeThread parse) (changed ev) m1 = Inr m2"
    using that by (simp add: updateCommentThreads_def addCommentThreads_result)
  assume a: "t \<in> set ts \<and> r \<in> set (resourceCommentThreads m) \<and> id_r r = toStr (parse (resource t))"
  then have "t \<in> set (concat (groupBy ts compareURIs))"
    using ms by (metis mset_eq_setD)
  then obtain g where g: "g \<in> set (groupBy ts compareURIs)" "t \<in> set g" by auto
  then have "same_resource g" using la by (simp add: list_all_iff)
  with g(2) have rt: "resource t = resource (hd g)" by (simp add: same_resource_def list_all_iff)
  have "?mk g \<in> set (map ?mk (groupBy ts compareURIs))" using g(1) by simp
  moreover have "id_r (?mk g) = id_r r"
    using a rt by (simp add: newResourceWithCommentThreads_def)
  ultimately have n1: "1 \<le> length (filter (\<lambda>e. id_r e = id_r r) (map ?mk (groupBy ts compareURIs)))"
    by (intro filter_nonempty)
  have n2: "1 \<le> length (filter (\<lambda>e. id_r e = id_r r) (resourceCommentThreads m))"
    using a filter_nonempty [of r "resourceCommentThreads m" "\<lambda>e. id_r e = id_r r"] by simp
  let ?m' = "m\<lparr>resourceCommentThreads := resourceCommentThreads m @ map ?mk (groupBy ts compareURIs)\<rparr>"
  have "2 \<le> length (filter (\<lambda>e. id_r e = id_r r) (resourceCommentThreads ?m'))"
    using n1 n2 by simp
  with res show "\<exists>m'. addCommentThreads parse toStr m ts = Inr m'
            \<and> 2 \<le> length (filter (\<lambda>e. id_r e = id_r r) (resourceCommentThreads m'))"
    by blast
qed

theorem addCommentThreads_appends_witness:
  "thread_t2 \<in> set [thread_t2] \<and> entry_t1 \<in> set (resourceCommentThreads \<lparr>resourceCommentThreads = [entry_t1]\<rparr>)
   \<and> id_r entry_t1 = resource thread_t2
   \<and> forEach_e removeThread (removed \<lparr>added = [thread_t2], removed = [], changed = []\<rparr>)
        \<lparr>resourceCommentThreads = [entry_t1]\<rparr> = Inr \<lparr>resourceCommentThreads = [entry_t1]\<rparr>
   \<and> forEach_e (changeThread (\<lambda>s. s)) (changed \<lparr>added = [thread_t2], removed = [], changed = []\<rparr>)
        \<lparr>resourceCommentThreads = [entry_t1]\<rparr> = Inr \<lparr>resourceCommentThreads = [entry_t1]\<rparr>
   \<and> updateCommentThreads (\<lambda>s. s) (\<lambda>u. u) \<lparr>resourceCommentThreads = [entry_t1]\<rparr>
        \<lparr>added = [thread_t2], removed = [], changed = []\<rparr>
       = Inr \<lparr>resourceCommentThreads = [entry_t1, entry_t2]\<rparr>
   \<and> id_r entry_t1 = id_r entry_t2"
proof -
  let ?m = "\<lparr>resourceCommentThreads = [entry_t1]\<rparr>"
  let ?ev = "\<lparr>added = [thread_t2], removed = [], changed = []\<rparr>"
  have h1: "forEach_e removeThread (removed ?ev) ?m = Inr ?m"
    and h2: "forEach_e (changeThread (\<lambda>s. s)) (changed ?ev) ?m = Inr ?m"
    by simp_all
  have i: "id_r entry_t1 = resource thread_t2" "id_r entry_t1 = id_r entry_t2"
    by (simp_all add: entry_t1_def entry_t2_def thread_t2_def)
  note t = addCommentThreads_appends [of "\<lambda>s. s" "\<lambda>u. u" ?m "[thread_t2]" ?ev ?m ?m thread_t2 entry_t1]
  have "updateCommentThreads (\<lambda>s. s) (\<lambda>u. u) ?m ?ev =
          Inr (?m\<lparr>resourceCommentThreads :=
                    resourceCommentThreads ?m @
                      map (\<lambda>g. newResourceWithCommentThreads (\<lambda>u. u) (resource (hd g)) g)
                        (groupBy (added ?ev) compareURIs)\<rparr>)"
    using t h1 h2 by blast
  then have u: "updateCommentThreads (\<lambda>s. s) (\<lambda>u. u) ?m ?ev = Inr \<lparr>resourceCommentThreads = [entry_t1, entry_t2]\<rparr>"
    by (simp add: groupBy_single newResourceWithCommentThreads_def createCommentNode_def
        newCommentNode_def thread_t2_def entry_t2_def)
  from h1 h2 i u show ?thesis by simp
qed

section \<open>Saving and loading the states\<close>

lemma fold_update_distinct:
  assumes "distinct (map fst al)" and "\<forall>q\<in>set al. fst q \<notin> fst ` set acc"
  shows "fold (\<lambda>(ident, state) m. AList.update ident state m) al acc = acc @ al"
  using assms
proof (induction al arbitrary: acc)
  case Nil
  then show ?case by simp
next
  case (Cons p al)
  obtain k v where p: "p = (k, v)" by (cases p)
  have u: "AList.update k v acc = acc @ [(k, v)]"
    using Cons.prems(2) p by (intro update_new_key) simp
  have nk: "k \<notin> fst ` set al" using Cons.prems(1) p by simp
  have "\<forall>q\<in>set al. fst q \<notin> fst ` set (acc @ [(k, v)])"
  proof
    fix q
    assume q: "q \<in> set al"
    then have "fst q \<notin> fst ` set acc" using Cons.prems(2) by simp
    moreover have "fst q \<in> fst ` set al" using q by (rule imageI)
    then have "fst q \<noteq> k" using nk by metis
    ultimately show "fst q \<notin> fst ` set (acc @ [(k, v)])" by simp
  qed
  moreover have "distinct (map fst al)" using Cons.prems(1) by simp
  ultimately have "fold (\<lambda>(ident, state) m. AList.update ident state m) al (acc @ [(k, v)])
      = (acc @ [(k, v)]) @ al"
    by (intro Cons.IH)
  then show ?case using p u by simp
qed

lemma construct_returns:
  "\<exists>evs. newContributableViewsModel states incoming =
     Inr (\<lparr>viewDescriptors = sort_cmp (compareViewDescriptors states) incoming,
           viewStates = createStates (sort_cmp (compareViewDescriptors states) incoming) states\<rparr>, evs)"
proof -
  have "has_states \<lparr>viewDescriptors = [], viewStates = states\<rparr>" by (simp add: has_states_def)
  from reconcile_returns [OF this, of incoming] show ?thesis
    by (simp add: newContributableViewsModel_def)
qed

text \<open>
  C9. Let \<^verbatim>\<open>JSON.parse\<close> return, for the string \<^verbatim>\<open>JSON.stringify\<close> makes of the array of the
  state map, that array. Then after \<^verbatim>\<open>saveViewsStates()\<close> the constructor, given the same
  store key and the same workbench state, returns a model whose state map holds, for every
  id of the saved map, the saved state (the same visible, collapsed, order and size): its map
  is the saved map followed by the default states of the active descriptors that had none.
\<close>

theorem save_load_roundtrip:
  assumes "distinct (map fst (viewStates (base pm)))"
    and "parseJSON (stringify (viewStates (base pm))) = Some (viewStates (base pm))"
  shows "\<exists>pm' evs.
     newPersistentContributableViewsModel parseJSON
       (saveViewsStates stringify st workbenchState pm) workbenchState
       (viewletStateStorageId pm) incoming = Inr (pm', evs)
     \<and> viewletStateStorageId pm' = viewletStateStorageId pm
     \<and> viewStates (base pm') =
         createStates (sort_cmp (compareViewDescriptors (viewStates (base pm))) incoming)
           (viewStates (base pm))
     \<and> (\<forall>ident\<in>set (map fst (viewStates (base pm))).
           map_of (viewStates (base pm')) ident = map_of (viewStates (base pm)) ident)"
proof -
  let ?saved = "viewStates (base pm)"
  let ?st' = "saveViewsStates stringify st workbenchState pm"
  have raw: "storage_get ?st' (viewletStateStorageId pm) (storageScope workbenchState) ''[]''
      = stringify ?saved"
    by (simp add: saveViewsStates_def storage_get_def storage_store_def Let_def)
  have fold: "fold (\<lambda>(ident, state) m. AList.update ident state m) ?saved [] = ?saved"
    using fold_update_distinct [OF assms(1), of "[]"] by simp
  obtain evs where c: "newContributableViewsModel ?saved incoming =
     Inr (\<lparr>viewDescriptors = sort_cmp (compareViewDescriptors ?saved) incoming,
           viewStates = createStates (sort_cmp (compareViewDescriptors ?saved) incoming) ?saved\<rparr>, evs)"
    using construct_returns by blast
  let ?pm' = "\<lparr>base = \<lparr>viewDescriptors = sort_cmp (compareViewDescriptors ?saved) incoming,
           viewStates = createStates (sort_cmp (compareViewDescriptors ?saved) incoming) ?saved\<rparr>,
           viewletStateStorageId = viewletStateStorageId pm\<rparr>"
  have r: "newPersistentContributableViewsModel parseJSON ?st' workbenchState
       (viewletStateStorageId pm) incoming = Inr (?pm', evs)"
    unfolding newPersistentContributableViewsModel_def Let_def raw assms(2)
    by (simp add: fold c)
  have keep: "map_of (viewStates (base ?pm')) ident = map_of ?saved ident"
    if "ident \<in> set (map fst ?saved)" for ident
  proof -
    have "map_of ?saved ident \<noteq> None" using that by (simp add: map_of_eq_None_iff)
    then show ?thesis by (simp add: createStates_keeps)
  qed
  show ?thesis
    using r keep by (intro exI [of _ ?pm'] exI [of _ evs]) simp
qed

theorem save_load_roundtrip_witness:
  "distinct (map fst (viewStates (base persistent_ab)))
   \<and> example_parse (example_stringify (viewStates (base persistent_ab)))
       = Some (viewStates (base persistent_ab))
   \<and> (case newPersistentContributableViewsModel example_parse
         (saveViewsStates example_stringify Map.empty FOLDER persistent_ab) FOLDER
         ''views.state'' [view_b, view_x] of
         Inl e \<Rightarrow> False
       | Inr (pm', evs) \<Rightarrow>
           map_of (viewStates (base pm')) ''a'' = Some hidden
           \<and> map_of (viewStates (base pm')) ''b'' = Some defaultState)"
proof -
  have d: "distinct (map fst (viewStates (base persistent_ab)))"
    by (simp add: persistent_ab_def model_ab_def)
  have p: "example_parse (example_stringify (viewStates (base persistent_ab)))
       = Some (viewStates (base persistent_ab))"
    by (simp add: example_parse_def example_stringify_def persistent_ab_def)
  have i: "viewletStateStorageId persistent_ab = ''views.state''"
    by (simp add: persistent_ab_def)
  have ma: "map_of (viewStates (base persistent_ab)) ''a'' = Some hidden"
    and mb: "map_of (viewStates (base persistent_ab)) ''b'' = Some defaultState"
    by (simp_all add: persistent_ab_def model_ab_def)
  have ka: "''a'' \<in> set (map fst (viewStates (base persistent_ab)))"
    and kb: "''b'' \<in> set (map fst (viewStates (base persistent_ab)))"
    by (simp_all add: persistent_ab_def model_ab_def)
  from save_load_roundtrip [where pm = persistent_ab and parseJSON = example_parse
      and stringify = example_stringify and st = Map.empty and workbenchState = FOLDER
      and incoming = "[view_b, view_x]", OF d p]
  obtain pm' evs where
    r: "newPersistentContributableViewsModel example_parse
         (saveViewsStates example_stringify Map.empty FOLDER persistent_ab) FOLDER
         ''views.state'' [view_b, view_x] = Inr (pm', evs)"
    and k: "\<forall>ident\<in>set (map fst (viewStates (base persistent_ab))).
           map_of (viewStates (base pm')) ident = map_of (viewStates (base persistent_ab)) ident"
    unfolding i by blast
  have "map_of (viewStates (base pm')) ''a'' = Some hidden"
    using bspec [OF k ka] ma by simp
  moreover have "map_of (viewStates (base pm')) ''b'' = Some defaultState"
    using bspec [OF k kb] mb by simp
  ultimately show ?thesis using r d p by simp
qed

section \<open>The indices of the reconcile events\<close>

text \<open>
  C1, at a failing input. The stored list is \<^verbatim>\<open>[a]\<close> with \<^verbatim>\<open>a\<close> hidden, so no descriptor is
  visible; the active descriptors become \<^verbatim>\<open>[a, b]\<close>. The pass fires one add event for \<^verbatim>\<open>b\<close>, at
  index 1: the length of the stored list, not the number of visible descriptors before the
  insertion point, which is 0. Index 1 is no insertion point of the empty visible list, whose
  final value is \<^verbatim>\<open>[b]\<close>.
\<close>

theorem reconcile_add_index_past_visible_end:
  "has_states model_a_hidden
   \<and> visibleViewDescriptors model_a_hidden = Inr []
   \<and> onDidChangeViewDescriptors model_a_hidden [view_a, view_b] =
       Inr (model_ab, [DidAdd 1 view_b None False])
   \<and> visibleViewDescriptors model_ab = Inr [view_b]
   \<and> apply_events [DidAdd 1 view_b None False] [] = None
   \<and> apply_events [DidAdd 0 view_b None False] [] = Some [view_b]"
  by (simp add: has_states_def visibleViewDescriptors_def onDidChangeViewDescriptors_def Let_def
      model_a_hidden_def model_ab_def sort_cmp_def compareViewDescriptors_def effectiveOrder_def
      view_a_def view_b_def hidden_def defaultState_def sortedDiff_def pushSplice_def
      spliceEvents_def js_index_def find_m_def)

subsection \<open>The events of the splices\<close>

lemma visible_in_state: "map_of st (id_d v) = Some s \<Longrightarrow> visible_in st v = visible s"
  by (simp add: visible_in_def)

lemma apply_events_append:
  "apply_events (es @ fs) vs =
     (case apply_events es vs of None \<Rightarrow> None | Some vs' \<Rightarrow> apply_events fs vs')"
  by (induction es arbitrary: vs) (auto split: option.splits)

lemma apply_removes:
  "apply_events (map (DidRemove (length P)) D) (P @ D @ R) = Some (P @ R)"
  by (induction D) (simp_all add: nth_append)

lemma removeEvents_formula:
  assumes "has_states m" and "k + n \<le> length (viewDescriptors m)"
  shows "removeEvents m si k n =
           Inr (map (DidRemove si)
                  (filter (visible_in (viewStates m)) (take n (drop k (viewDescriptors m)))))"
  using assms
proof (induction n arbitrary: k)
  case 0
  then show ?case by simp
next
  case (Suc n)
  let ?vs = "viewDescriptors m"
  have k: "k < length ?vs" using Suc.prems(2) by simp
  obtain s where s: "map_of (viewStates m) (id_d (?vs ! k)) = Some s"
    using has_states_nth [OF Suc.prems(1) k] by blast
  have d: "drop k ?vs = ?vs ! k # drop (Suc k) ?vs"
    using k by (simp add: Cons_nth_drop_Suc)
  have IH: "removeEvents m si (k + 1) n =
           Inr (map (DidRemove si)
                  (filter (visible_in (viewStates m)) (take n (drop (Suc k) ?vs))))"
    using Suc.IH [OF Suc.prems(1), of "k + 1"] Suc.prems(2) by simp
  show ?case
    using k s IH find_m_in_list [OF Suc.prems(1) k]
    by (simp add: js_index_def d visible_in_state)
qed

lemma addEvents_apply:
  assumes "list_all (\<lambda>v. map_of st (id_d v) \<noteq> None) vds"
  shows "\<exists>evs. addEvents st (length P) vds = Inr evs \<and>
           (\<forall>R. apply_events evs (P @ R) = Some (P @ filter (visible_in st) vds @ R))"
  using assms
proof (induction vds arbitrary: P)
  case Nil
  then show ?case by simp
next
  case (Cons v vds)
  then obtain s where s: "map_of st (id_d v) = Some s" by auto
  have rest: "list_all (\<lambda>v. map_of st (id_d v) \<noteq> None) vds" using Cons.prems by simp
  show ?case
  proof (cases "visible s")
    case True
    from Cons.IH [OF rest, of "P @ [v]"] obtain evs where
      e: "addEvents st (length P + 1) vds = Inr evs" and
      a: "\<And>R. apply_events evs ((P @ [v]) @ R) = Some ((P @ [v]) @ filter (visible_in st) vds @ R)"
      by auto
    have "apply_events (DidAdd (length P) v (size_s s) (collapsed s) # evs) (P @ R)
        = Some (P @ filter (visible_in st) (v # vds) @ R)" for R
      using a [of R] s True by (simp add: visible_in_state)
    then show ?thesis using s True e by simp
  next
    case False
    from Cons.IH [OF rest, of P] obtain evs where
      e: "addEvents st (length P) vds = Inr evs" and
      a: "\<And>R. apply_events evs (P @ R) = Some (P @ filter (visible_in st) vds @ R)"
      by auto
    show ?thesis using s False e a by (simp add: visible_in_state)
  qed
qed

lemma addEvents_none:
  assumes "list_all (\<lambda>v. map_of st (id_d v) \<noteq> None) vds"
    and "filter (visible_in st) vds = []"
  shows "addEvents st k vds = Inr []"
  using assms
proof (induction vds)
  case Nil
  then show ?case by simp
next
  case (Cons v vds)
  then obtain s where s: "map_of st (id_d v) = Some s" by auto
  with Cons.prems(2) have nv: "\<not> visible s" and rest: "filter (visible_in st) vds = []"
    by (auto simp: visible_in_state split: if_splits)
  show ?case using s nv Cons.IH rest Cons.prems(1) by simp
qed

lemma spliceEvents_apply:
  assumes "has_states m" and "distinct (map id_d (viewDescriptors m))"
    and "start sp + deleteCount sp \<le> length (viewDescriptors m)"
    and "list_all (\<lambda>v. map_of (viewStates m) (id_d v) \<noteq> None) (toInsert sp)"
    and "index_ok (viewStates m) (viewDescriptors m) sp"
  shows "\<exists>evs. spliceEvents m sp = Inr evs \<and>
           (\<forall>R. apply_events evs
                  (filter (visible_in (viewStates m)) (take (start sp) (viewDescriptors m))
                   @ filter (visible_in (viewStates m))
                       (take (deleteCount sp) (drop (start sp) (viewDescriptors m)))
                   @ R)
                = Some (filter (visible_in (viewStates m)) (take (start sp) (viewDescriptors m))
                        @ filter (visible_in (viewStates m)) (toInsert sp) @ R))"
proof -
  let ?old = "viewDescriptors m" and ?st = "viewStates m"
  let ?P = "filter (visible_in ?st) (take (start sp) ?old)"
  let ?D = "filter (visible_in ?st) (take (deleteCount sp) (drop (start sp) ?old))"
  let ?si = "(case js_index ?old (int (start sp)) of
              None \<Rightarrow> Inr (length ?old)
            | Some startViewDescriptor \<Rightarrow>
                (case find_m m (id_d startViewDescriptor) of
                   Inl e \<Rightarrow> Inl e
                 | Inr (index, visibleIndex, vd, state) \<Rightarrow> Inr visibleIndex)) :: error + nat"
  have rm: "removeEvents m si (start sp) (deleteCount sp) = Inr (map (DidRemove si) ?D)" for si
    using assms(1,3) by (rule removeEvents_formula)
  show ?thesis
  proof (cases "start sp < length ?old \<or> length (filter (visible_in ?st) ?old) = length ?old")
    case True
    have si: "?si = Inr (length ?P)"
    proof (cases "start sp < length ?old")
      case True
      have "raw_index (id_d (?old ! start sp)) ?old = start sp"
        using assms(2) True by (rule raw_index_nth_distinct)
      then show ?thesis
        using True find_m_in_list [OF assms(1) True]
        by (simp add: js_index_def visible_index_def)
    next
      case False
      with \<open>start sp < length ?old \<or> length (filter (visible_in ?st) ?old) = length ?old\<close>
      have "length (filter (visible_in ?st) ?old) = length ?old" by simp
      then show ?thesis using False by (simp add: js_index_def)
    qed
    obtain as where as: "addEvents ?st (length ?P) (toInsert sp) = Inr as"
      and ap: "\<And>R. apply_events as (?P @ R) = Some (?P @ filter (visible_in ?st) (toInsert sp) @ R)"
      using addEvents_apply [OF assms(4), of ?P] by blast
    have ev: "spliceEvents m sp = Inr (map (DidRemove (length ?P)) ?D @ as)"
      unfolding spliceEvents_def si using rm [of "length ?P"] as by simp
    have "apply_events (map (DidRemove (length ?P)) ?D @ as) (?P @ ?D @ R)
        = Some (?P @ filter (visible_in ?st) (toInsert sp) @ R)" for R
      using ap [of R] by (simp add: apply_events_append apply_removes)
    with ev show ?thesis by blast
  next
    case False
    then have s: "start sp = length ?old" and d: "deleteCount sp = 0"
      using assms(3) by simp_all
    from False assms(5) have none: "filter (visible_in ?st) (toInsert sp) = []"
      by (simp add: index_ok_def)
    have si: "?si = Inr (length ?old)" using s by (simp add: js_index_def)
    have as: "addEvents ?st (length ?old) (toInsert sp) = Inr []"
      using assms(4) none by (rule addEvents_none)
    have ev: "spliceEvents m sp = Inr []"
      unfolding spliceEvents_def si using as d by simp
    show ?thesis using ev none d by simp
  qed
qed

lemma splicesEvents_apply:
  assumes "has_states m" and "distinct (map id_d (viewDescriptors m))"
    and "ordered_rev rr i" and "i \<le> length (viewDescriptors m)"
    and "list_all (\<lambda>sp. list_all (\<lambda>v. map_of (viewStates m) (id_d v) \<noteq> None) (toInsert sp)) rr"
    and "list_all (index_ok (viewStates m) (viewDescriptors m)) rr"
  shows "\<exists>evs. splicesEvents m rr = Inr evs \<and>
           (\<forall>R. apply_events evs
                  (filter (visible_in (viewStates m)) (take i (viewDescriptors m)) @ R)
                = Some (visible_after (viewStates m) (viewDescriptors m) rr i @ R))"
  using assms(3-6)
proof (induction rr arbitrary: i)
  case Nil
  then show ?case by simp
next
  case (Cons sp rs)
  let ?old = "viewDescriptors m" and ?st = "viewStates m"
  let ?s = "start sp" and ?d = "deleteCount sp"
  have le: "?s + ?d \<le> i" and ord: "ordered_rev rs ?s" using Cons.prems(1) by simp_all
  have len: "?s + ?d \<le> length ?old" using le Cons.prems(2) by simp
  obtain e1 where e1: "spliceEvents m sp = Inr e1"
    and a1: "\<And>R. apply_events e1
                  (filter (visible_in ?st) (take ?s ?old)
                   @ filter (visible_in ?st) (take ?d (drop ?s ?old)) @ R)
                = Some (filter (visible_in ?st) (take ?s ?old)
                        @ filter (visible_in ?st) (toInsert sp) @ R)"
    using spliceEvents_apply [OF assms(1,2) len] Cons.prems(3,4) by auto
  obtain e2 where e2: "splicesEvents m rs = Inr e2"
    and a2: "\<And>R. apply_events e2 (filter (visible_in ?st) (take ?s ?old) @ R)
                = Some (visible_after ?st ?old rs ?s @ R)"
    using Cons.IH [OF ord] len Cons.prems(3,4) by auto
  have split: "take i ?old = take ?s ?old @ take ?d (drop ?s ?old)
                 @ take (i - (?s + ?d)) (drop (?s + ?d) ?old)"
  proof -
    have "take i ?old = take (?s + (i - ?s)) ?old" using le by simp
    also have "\<dots> = take ?s ?old @ take (i - ?s) (drop ?s ?old)" by (rule take_add)
    also have "take (i - ?s) (drop ?s ?old) = take (?d + (i - (?s + ?d))) (drop ?s ?old)"
      using le by simp
    also have "\<dots> = take ?d (drop ?s ?old) @ take (i - (?s + ?d)) (drop ?d (drop ?s ?old))"
      by (rule take_add)
    finally show ?thesis by (simp add: add.commute)
  qed
  have "apply_events (e1 @ e2) (filter (visible_in ?st) (take i ?old) @ R)
      = Some (visible_after ?st ?old (sp # rs) i @ R)" for R
  proof -
    let ?T = "filter (visible_in ?st) (take (i - (?s + ?d)) (drop (?s + ?d) ?old))"
    have "filter (visible_in ?st) (take i ?old) @ R =
        filter (visible_in ?st) (take ?s ?old)
          @ filter (visible_in ?st) (take ?d (drop ?s ?old)) @ (?T @ R)"
      by (subst split) simp
    then show ?thesis
      using a1 [of "?T @ R"] a2 [of "filter (visible_in ?st) (toInsert sp) @ ?T @ R"]
      by (simp add: apply_events_append)
  qed
  then show ?case using e1 e2 by simp
qed

lemma rev_pushSplice:
  "rev (pushSplice i d ins result) =
     (if d = 0 \<and> ins = [] then rev result
      else (case rev result of
              [] \<Rightarrow> [\<lparr>start = i, deleteCount = d, toInsert = ins\<rparr>]
            | sp # rs \<Rightarrow>
                if start sp + deleteCount sp = i
                then sp\<lparr>deleteCount := deleteCount sp + d, toInsert := toInsert sp @ ins\<rparr> # rs
                else \<lparr>start = i, deleteCount = d, toInsert = ins\<rparr> # sp # rs))"
proof (cases result rule: rev_cases)
  case Nil
  then show ?thesis by (simp add: pushSplice_def)
next
  case (snoc xs x)
  then show ?thesis by (simp add: pushSplice_def)
qed

lemma ordered_rev_mono: "ordered_rev rr i \<Longrightarrow> i \<le> j \<Longrightarrow> ordered_rev rr j"
  by (cases rr) simp_all

lemma visible_after_advance:
  assumes "ordered_rev rr i"
  shows "visible_after st old rr (i + k) =
           visible_after st old rr i @ filter (visible_in st) (take k (drop i old))"
proof (cases rr)
  case Nil
  then show ?thesis by (simp add: take_add)
next
  case (Cons sp rs)
  let ?e = "start sp + deleteCount sp"
  have e: "?e \<le> i" using assms Cons by simp
  then have "i + k - ?e = (i - ?e) + k" by simp
  then have "take (i + k - ?e) (drop ?e old)
      = take (i - ?e) (drop ?e old) @ take k (drop (i - ?e) (drop ?e old))"
    by (simp only: take_add)
  moreover have "drop (i - ?e) (drop ?e old) = drop i old" using e by simp
  ultimately show ?thesis using Cons by simp
qed

lemma pushSplice_both:
  assumes "ordered_rev (rev result) i"
  shows "ordered_rev (rev (pushSplice i d ins result)) (i + d)
      \<and> visible_after st old (rev (pushSplice i d ins result)) (i + d) =
           visible_after st old (rev result) i @ filter (visible_in st) ins"
proof (cases "d = 0 \<and> ins = []")
  case True
  then show ?thesis using assms by (simp add: rev_pushSplice)
next
  case False
  show ?thesis
  proof (cases "rev result")
    case Nil
    then show ?thesis using False by (simp add: rev_pushSplice)
  next
    case (Cons sp rs)
    show ?thesis
    proof (cases "start sp + deleteCount sp = i")
      case True
      then show ?thesis using False Cons assms by (simp add: rev_pushSplice)
    next
      case neq: False
      then show ?thesis using False Cons assms by (simp add: rev_pushSplice)
    qed
  qed
qed

lemma visible_in_same_id: "id_d a = id_d b \<Longrightarrow> visible_in st a = visible_in st b"
  by (simp add: visible_in_def)

lemma sortedDiff_loop_visible_after:
  assumes "\<forall>a b. is_zero (cmp b a) \<longrightarrow> id_d b = id_d a"
    and "ordered_rev (rev result) i" and "bs = drop i old" and "i \<le> length old"
  shows "ordered_rev (rev (sortedDiff_loop cmp bs as i result)) (length old)
       \<and> map id_d (visible_after st old (rev (sortedDiff_loop cmp bs as i result)) (length old))
           = map id_d (visible_after st old (rev result) i) @ map id_d (filter (visible_in st) as)"
  using assms
proof (induction cmp bs as i result rule: sortedDiff_loop.induct)
  case (1 compare after beforeIdx result)
  then have i: "beforeIdx = length old" by simp
  show ?case
    using pushSplice_both [OF "1.prems"(2), where d = 0 and ins = after and st = st and old = old] i by simp
next
  case (2 compare b bs beforeIdx result)
  have "length (b # bs) = length old - beforeIdx"
    using "2.prems"(3) by (metis length_drop)
  then have len: "beforeIdx + length (b # bs) = length old"
    using "2.prems"(4) by simp
  show ?case
    using pushSplice_both [OF "2.prems"(2), where d = "length (b # bs)" and ins = "[]" and st = st and old = old] len by simp
next
  case (3 compare b bs a as beforeIdx result)
  note cmp = "3.prems"(1) and ord = "3.prems"(2) and db = "3.prems"(3) and le = "3.prems"(4)
  have lt: "beforeIdx < length old"
  proof (rule ccontr)
    assume "\<not> beforeIdx < length old"
    then have "drop beforeIdx old = []" by simp
    with db show False by simp
  qed
  have "old ! beforeIdx # drop (Suc beforeIdx) old = b # bs"
    using db lt by (simp add: Cons_nth_drop_Suc)
  then have b: "b = old ! beforeIdx" and bs: "bs = drop (beforeIdx + 1) old" by simp_all
  have le1: "beforeIdx + 1 \<le> length old" using lt by simp
  show ?case
  proof (cases "is_zero (compare b a)")
    case True
    note z = True
    have o: "ordered_rev (rev result) (beforeIdx + 1)"
      using ord by (rule ordered_rev_mono) simp
    have adv: "visible_after st old (rev result) (beforeIdx + 1)
        = visible_after st old (rev result) beforeIdx @ filter (visible_in st) [b]"
      using visible_after_advance [OF ord, of st old 1] db [symmetric] by simp
    have "id_d b = id_d a" using z cmp by blast
    then have same: "map id_d (filter (visible_in st) [b]) = map id_d (filter (visible_in st) [a])"
      using visible_in_same_id [of b a st] by simp
    from "3.IH"(1) [OF refl z cmp o bs le1] adv same
    show ?thesis using z by simp
  next
    case False
    note nz = False
    show ?thesis
    proof (cases "is_neg (compare b a)")
      case True
      have ov: "ordered_rev (rev (pushSplice beforeIdx 1 [] result)) (beforeIdx + 1)
        \<and> visible_after st old (rev (pushSplice beforeIdx 1 [] result)) (beforeIdx + 1)
            = visible_after st old (rev result) beforeIdx @ filter (visible_in st) []"
        using pushSplice_both [OF ord, where d = 1 and ins = "[]" and st = st and old = old] by simp
      from "3.IH"(2) [OF refl nz True cmp conjunct1 [OF ov] bs le1] ov
      show ?thesis using nz True by simp
    next
      case False
      have ov: "ordered_rev (rev (pushSplice beforeIdx 0 [a] result)) beforeIdx
        \<and> visible_after st old (rev (pushSplice beforeIdx 0 [a] result)) beforeIdx
            = visible_after st old (rev result) beforeIdx @ filter (visible_in st) [a]"
        using pushSplice_both [OF ord, where d = 0 and ins = "[a]" and st = st and old = old] by simp
      from "3.IH"(3) [OF refl nz False cmp conjunct1 [OF ov] db le] ov
      show ?thesis using nz False by simp
    qed
  qed
qed

lemma visible_in_createStates:
  "map_of st (id_d v) \<noteq> None \<Longrightarrow> visible_in (createStates vs st) v = visible_in st v"
  by (simp add: visible_in_def createStates_keeps)

text \<open>
  Apart from the fallback index the events of a reconcile pass are right. In a model with
  pairwise distinct ids in which every stored descriptor has a state, if the fallback index
  is right for every splice (each splice starts inside the stored list, or every stored
  descriptor is visible, or the splice inserts no visible descriptor), then the pass
  returns, every event it fires carries a valid removal or insertion index of the visible
  list at that moment, and applying the events in order to the visible descriptors before
  the pass gives the visible descriptors after it, id by id.
\<close>

lemma reconcile_events_valid:
  assumes "has_states m" and "distinct (map id_d (viewDescriptors m))"
    and "fallback_index_right m incoming"
  shows "\<exists>m' evs vs.
     onDidChangeViewDescriptors m incoming = Inr (m', evs)
     \<and> apply_events evs (filter (visible_in (viewStates m)) (viewDescriptors m)) = Some vs
     \<and> map id_d vs = map id_d (filter (visible_in (viewStates m')) (viewDescriptors m'))"
proof -
  let ?old = "viewDescriptors m"
  let ?sorted = "sort_cmp (compareViewDescriptors (viewStates m)) incoming"
  let ?st1 = "createStates ?sorted (viewStates m)"
  let ?m1 = "m\<lparr>viewStates := ?st1\<rparr>"
  let ?sd = "sortedDiff ?old ?sorted (compareViewDescriptors ?st1)"
  have h1: "has_states ?m1" using assms(1) by (rule has_states_createStates)
  have d1: "distinct (map id_d (viewDescriptors ?m1))" using assms(2) by simp
  have cmp: "\<forall>a b. is_zero (compareViewDescriptors ?st1 b a) \<longrightarrow> id_d b = id_d a"
    by (simp add: is_zero_compare order_key_def)
  have loop: "ordered_rev (rev ?sd) (length ?old)
       \<and> map id_d (visible_after ?st1 ?old (rev ?sd) (length ?old))
           = map id_d (visible_after ?st1 ?old (rev []) 0) @ map id_d (filter (visible_in ?st1) ?sorted)"
    unfolding sortedDiff_def
    by (rule sortedDiff_loop_visible_after [OF cmp]) simp_all
  have ord: "ordered_rev (rev ?sd) (length (viewDescriptors ?m1))" using loop by simp
  have ids: "map id_d (visible_after ?st1 ?old (rev ?sd) (length ?old))
      = map id_d (filter (visible_in ?st1) ?sorted)"
    using loop by simp
  have ins: "list_all (\<lambda>sp. list_all (\<lambda>v. map_of (viewStates ?m1) (id_d v) \<noteq> None) (toInsert sp))
      (rev ?sd)"
  proof -
    have "list_all (\<lambda>v. map_of ?st1 (id_d v) \<noteq> None) (toInsert sp)" if "sp \<in> set ?sd" for sp
    proof -
      have "splice_ok (length ?old) (set ?sorted) sp"
        using sortedDiff_ok [of ?old ?sorted "compareViewDescriptors ?st1"] that
        by (simp add: list_all_iff)
      then have "set (toInsert sp) \<subseteq> set ?sorted" by (simp add: splice_ok_def)
      then show ?thesis
        using createStates_has [of ?sorted "viewStates m"] by (auto simp: list_all_iff)
    qed
    then show ?thesis by (simp add: list_all_iff)
  qed
  have ok: "list_all (index_ok (viewStates ?m1) (viewDescriptors ?m1)) (rev ?sd)"
    using assms(3) by (simp add: fallback_index_right_def Let_def)
  obtain evs where ev: "splicesEvents ?m1 (rev ?sd) = Inr evs"
    and ap: "\<And>R. apply_events evs
                  (filter (visible_in (viewStates ?m1))
                     (take (length (viewDescriptors ?m1)) (viewDescriptors ?m1)) @ R)
                = Some (visible_after (viewStates ?m1) (viewDescriptors ?m1) (rev ?sd)
                          (length (viewDescriptors ?m1)) @ R)"
    using splicesEvents_apply [OF h1 d1 ord _ ins ok] by auto
  have same: "filter (visible_in ?st1) ?old = filter (visible_in (viewStates m)) ?old"
  proof (rule filter_cong [OF refl])
    fix v
    assume "v \<in> set ?old"
    then have "map_of (viewStates m) (id_d v) \<noteq> None"
      using assms(1) by (simp add: has_states_def list_all_iff)
    then show "visible_in ?st1 v = visible_in (viewStates m) v"
      by (rule visible_in_createStates)
  qed
  have a: "apply_events evs (filter (visible_in (viewStates m)) ?old)
      = Some (visible_after ?st1 ?old (rev ?sd) (length ?old))"
    using ap [of "[]"] same by simp
  have r: "onDidChangeViewDescriptors m incoming = Inr (?m1\<lparr>viewDescriptors := ?sorted\<rparr>, evs)"
    using ev by (simp add: onDidChangeViewDescriptors_def Let_def)
  show ?thesis
    using r a ids
    by (intro exI [of _ "?m1\<lparr>viewDescriptors := ?sorted\<rparr>"] exI [of _ evs]
        exI [of _ "visible_after ?st1 ?old (rev ?sd) (length ?old)"]) simp
qed

text \<open>
  An instance: \<^verbatim>\<open>x\<close> (order 2) joins the stored list \<^verbatim>\<open>[a, b]\<close> with \<^verbatim>\<open>a\<close> hidden. The splice
  starts at 0, inside the list; the add event carries the visible index 0.
\<close>

lemma reconcile_events_valid_example:
  "has_states model_ab \<and> distinct (map id_d (viewDescriptors model_ab))
   \<and> fallback_index_right model_ab [view_b, view_x, view_a]
   \<and> onDidChangeViewDescriptors model_ab [view_b, view_x, view_a] =
       Inr (model_ab_x, [DidAdd 0 view_x None False])
   \<and> apply_events [DidAdd 0 view_x None False]
        (filter (visible_in (viewStates model_ab)) (viewDescriptors model_ab)) = Some [view_x, view_b]
   \<and> filter (visible_in (viewStates model_ab_x)) (viewDescriptors model_ab_x) = [view_x, view_b]"
proof -
  have h: "has_states model_ab"
    by (simp add: has_states_def model_ab_def view_a_def view_b_def)
  have d: "distinct (map id_d (viewDescriptors model_ab))"
    by (simp add: model_ab_def view_a_def view_b_def)
  have f: "fallback_index_right model_ab [view_b, view_x, view_a]"
    by (simp add: fallback_index_right_def index_ok_def Let_def model_ab_def sort_cmp_def
        compareViewDescriptors_def effectiveOrder_def view_a_def view_b_def view_x_def hidden_def
        defaultState_def sortedDiff_def pushSplice_def)
  have e: "onDidChangeViewDescriptors model_ab [view_b, view_x, view_a] =
       Inr (model_ab_x, [DidAdd 0 view_x None False])"
    by (simp add: onDidChangeViewDescriptors_def Let_def model_ab_def model_ab_x_def sort_cmp_def
        compareViewDescriptors_def effectiveOrder_def view_a_def view_b_def view_x_def hidden_def
        defaultState_def sortedDiff_def pushSplice_def spliceEvents_def js_index_def find_m_def)
  have v: "filter (visible_in (viewStates model_ab)) (viewDescriptors model_ab) = [view_b]"
    by (simp add: visible_in_def model_ab_def view_a_def view_b_def hidden_def defaultState_def)
  have w: "filter (visible_in (viewStates model_ab_x)) (viewDescriptors model_ab_x) = [view_x, view_b]"
    by (simp add: visible_in_def model_ab_x_def view_a_def view_b_def view_x_def hidden_def
        defaultState_def)
  from reconcile_events_valid [OF h d f] obtain m' evs vs where
    "onDidChangeViewDescriptors model_ab [view_b, view_x, view_a] = Inr (m', evs)"
    "apply_events evs (filter (visible_in (viewStates model_ab)) (viewDescriptors model_ab)) = Some vs"
    by blast
  with e have "apply_events [DidAdd 0 view_x None False]
        (filter (visible_in (viewStates model_ab)) (viewDescriptors model_ab)) \<noteq> None"
    by simp
  moreover have "apply_events [DidAdd 0 view_x None False] [view_b] = Some [view_x, view_b]"
    by simp
  ultimately show ?thesis using h d f e v w by simp
qed

end
